theory Spec2Isabelle
  imports Main "HOL-Library.Word" "HOL-Library.Sublist"
begin

section \<open>JavaScript strings\<close>

text \<open>
  A JavaScript string is a sequence of UTF-16 code units; \<open>length\<close>, \<open>slice\<close>, \<open>split\<close>,
  \<open>trim\<close> and the regular expressions of the program (none has the \<open>u\<close> flag) all work
  on code units.  String literals of the source are written \<open>js ''...''\<close>.
\<close>

type_synonym jchar = "16 word"
type_synonym jstring = "jchar list"

definition js :: "string \<Rightarrow> jstring" where
  "js s = map of_char s"

text \<open>
  The class \<open>\s\<close> of a regular expression and the characters \<open>String.prototype.trim\<close>
  strips are the same set: WhiteSpace and LineTerminator of ECMA-262.
\<close>

definition isSpace :: "jchar \<Rightarrow> bool" where
  "isSpace c = (c \<in> {0x9, 0xA, 0xB, 0xC, 0xD, 0x20, 0xA0, 0x1680, 0x2028, 0x2029, 0x202F,
                       0x205F, 0x3000, 0xFEFF} \<or> (0x2000 \<le> c \<and> c \<le> 0x200A))"

definition isUpper :: "jchar \<Rightarrow> bool" where  \<comment> \<open>\<open>[A-Z]\<close>\<close>
  "isUpper c = (0x41 \<le> c \<and> c \<le> 0x5A)"

definition isLower :: "jchar \<Rightarrow> bool" where  \<comment> \<open>\<open>[a-z]\<close>\<close>
  "isLower c = (0x61 \<le> c \<and> c \<le> 0x7A)"

definition isDigit :: "jchar \<Rightarrow> bool" where  \<comment> \<open>\<open>[0-9]\<close>\<close>
  "isDigit c = (0x30 \<le> c \<and> c \<le> 0x39)"

definition isLetter :: "jchar \<Rightarrow> bool" where  \<comment> \<open>\<open>[a-zA-Z]\<close>\<close>
  "isLetter c = (isLower c \<or> isUpper c)"

definition isWord :: "jchar \<Rightarrow> bool" where  \<comment> \<open>\<open>\w\<close>, which decides \<open>\b\<close>\<close>
  "isWord c = (isLetter c \<or> isDigit c \<or> c = 0x5F)"

definition isPunct :: "jchar \<Rightarrow> bool" where  \<comment> \<open>\<open>[.,;:!?]\<close>\<close>
  "isPunct c = (c \<in> set (js ''.,;:!?''))"

definition isPeriod :: "jchar \<Rightarrow> bool" where  \<comment> \<open>\<open>[.]\<close>\<close>
  "isPeriod c = (c = 0x2E)"

definition isBullet :: "jchar \<Rightarrow> bool" where  \<comment> \<open>\<open>[-*]\<close>\<close>
  "isBullet c = (c \<in> set (js ''-*''))"

definition isDueChar :: "jchar \<Rightarrow> bool" where  \<comment> \<open>\<open>[A-Za-z0-9 ,.-]\<close>\<close>
  "isDueChar c = (isUpper c \<or> isLower c \<or> isDigit c \<or> c \<in> set (js '' ,.-''))"

definition isAny :: "jchar \<Rightarrow> bool" where  \<comment> \<open>\<open>[\s\S]\<close>\<close>
  "isAny c = (isSpace c \<or> \<not> isSpace c)"

definition trim :: "jstring \<Rightarrow> jstring" where
  "trim s = rev (dropWhile isSpace (rev (dropWhile isSpace s)))"

text \<open>\<open>s.split("\n")\<close>: the pieces between line feeds; never an empty array.\<close>

fun split_nl :: "jstring \<Rightarrow> jstring list" where
  "split_nl [] = [[]]"
| "split_nl (c # cs) =
     (if c = 0xA then [] # split_nl cs
      else (case split_nl cs of [] \<Rightarrow> [[c]] | l # ls \<Rightarrow> (c # l) # ls))"

text \<open>\<open>xs.join(sep)\<close>\<close>

fun join :: "jstring \<Rightarrow> jstring list \<Rightarrow> jstring" where
  "join sep [] = []"
| "join sep [x] = x"
| "join sep (x # y # ys) = x @ sep @ join sep (y # ys)"


section \<open>Regular expressions\<close>

text \<open>
  The fragment of ECMAScript regular expressions the program uses: character classes,
  literals, sequence, alternation, a greedy quantifier \<open>{n,}\<close> on a character class
  (\<open>*\<close> is \<open>{0,}\<close>, \<open>+\<close> is \<open>{1,}\<close>), capturing groups, \<open>\b\<close> and \<open>^\<close>.
\<close>

datatype rx =
    Cls "jchar \<Rightarrow> bool"
  | Lit jstring
  | Cat rx rx
  | Alt rx rx
  | Many nat "jchar \<Rightarrow> bool"
  | Grp nat rx
  | WordB
  | Bol

fun seq :: "rx list \<Rightarrow> rx" where
  "seq [] = Lit []"
| "seq [r] = r"
| "seq (r # rs) = Cat r (seq rs)"

fun alts :: "rx list \<Rightarrow> rx" where
  "alts [] = Cls (\<lambda>c. False)"
| "alts [r] = r"
| "alts (r # rs) = Alt r (alts rs)"

text \<open>
  The \<open>i\<close> flag compares canonicalised characters.  Every letter in the program's patterns
  is an ASCII letter, and Canonicalize never maps a character outside ASCII to one inside,
  so the canonical form is needed for the ASCII letters only.
\<close>

definition upper :: "jchar \<Rightarrow> jchar" where
  "upper c = (if isLower c then c - 0x20 else c)"

definition lower :: "jchar \<Rightarrow> jchar" where
  "lower c = (if isUpper c then c + 0x20 else c)"

definition chr_match :: "bool \<Rightarrow> jchar \<Rightarrow> jchar \<Rightarrow> bool" where
  "chr_match ic a c = (if ic then upper a = upper c else a = c)"

definition cls_match :: "bool \<Rightarrow> (jchar \<Rightarrow> bool) \<Rightarrow> jchar \<Rightarrow> bool" where
  "cls_match ic P c = (if ic then P c \<or> P (lower c) \<or> P (upper c) else P c)"

text \<open>
  A matcher state is the captures so far, the character before the current position
  (\<open>None\<close> at the start of the string) and the rest of the input.  \<open>ms\<close> lists the states
  a pattern can end in, in the order a backtracking matcher tries them: the first one is
  the match JavaScript reports.
\<close>

type_synonym mstate = "(nat \<times> jstring) list \<times> jchar option \<times> jstring"

fun many :: "bool \<Rightarrow> (jchar \<Rightarrow> bool) \<Rightarrow> nat \<Rightarrow> jchar option \<Rightarrow> jstring
    \<Rightarrow> (jchar option \<times> jstring) list" where
  "many ic P n p [] = (if n = 0 then [(p, [])] else [])"
| "many ic P n p (c # cs) =
     (if cls_match ic P c then many ic P (n - 1) (Some c) cs else []) @
     (if n = 0 then [(p, c # cs)] else [])"

fun lit :: "bool \<Rightarrow> jstring \<Rightarrow> jchar option \<Rightarrow> jstring \<Rightarrow> (jchar option \<times> jstring) option" where
  "lit ic [] p s = Some (p, s)"
| "lit ic (a # as) p [] = None"
| "lit ic (a # as) p (c # cs) = (if chr_match ic a c then lit ic as (Some c) cs else None)"

definition at_boundary :: "jchar option \<Rightarrow> jstring \<Rightarrow> bool" where
  "at_boundary p s =
     ((case p of None \<Rightarrow> False | Some a \<Rightarrow> isWord a) \<noteq>
      (case s of [] \<Rightarrow> False | c # _ \<Rightarrow> isWord c))"

fun ms :: "bool \<Rightarrow> rx \<Rightarrow> mstate \<Rightarrow> mstate list" where
  "ms ic (Cls P) (caps, p, s) =
     (case s of [] \<Rightarrow> [] | c # cs \<Rightarrow> if cls_match ic P c then [(caps, Some c, cs)] else [])"
| "ms ic (Lit w) (caps, p, s) =
     (case lit ic w p s of None \<Rightarrow> [] | Some (p', s') \<Rightarrow> [(caps, p', s')])"
| "ms ic (Cat a b) st = concat (map (ms ic b) (ms ic a st))"
| "ms ic (Alt a b) st = ms ic a st @ ms ic b st"
| "ms ic (Many n P) (caps, p, s) = map (\<lambda>(p', s'). (caps, p', s')) (many ic P n p s)"
| "ms ic (Grp i r) (caps, p, s) =
     map (\<lambda>(caps', p', s'). ((i, take (length s - length s') s) # caps', p', s'))
       (ms ic r (caps, p, s))"
| "ms ic WordB (caps, p, s) = (if at_boundary p s then [(caps, p, s)] else [])"
| "ms ic Bol (caps, p, s) = (if p = None then [(caps, p, s)] else [])"

text \<open>What \<open>RegExp.prototype.exec\<close> returns: the matched text and the groups.\<close>

record rmatch =
  whole :: jstring
  groups :: "(nat \<times> jstring) list"

text \<open>The leftmost match: try every start position in turn.\<close>

fun exec :: "bool \<Rightarrow> rx \<Rightarrow> jchar option \<Rightarrow> jstring \<Rightarrow> rmatch option" where
  "exec ic r p [] =
     (case ms ic r ([], p, []) of [] \<Rightarrow> None
      | (caps, _, _) # _ \<Rightarrow> Some \<lparr>whole = [], groups = caps\<rparr>)"
| "exec ic r p (c # cs) =
     (case ms ic r ([], p, c # cs) of [] \<Rightarrow> exec ic r (Some c) cs
      | (caps, _, s') # _ \<Rightarrow>
          Some \<lparr>whole = take (length (c # cs) - length s') (c # cs), groups = caps\<rparr>)"

text \<open>\<open>s.match(r)\<close> for a pattern without the \<open>g\<close> flag, and \<open>r.test(s)\<close>.\<close>

definition str_match :: "bool \<Rightarrow> rx \<Rightarrow> jstring \<Rightarrow> rmatch option" where
  "str_match ic r s = exec ic r None s"

definition rx_test :: "bool \<Rightarrow> rx \<Rightarrow> jstring \<Rightarrow> bool" where
  "rx_test ic r s = (str_match ic r s \<noteq> None)"

text \<open>
  \<open>s.replace(r, ...)\<close> for a pattern with the \<open>g\<close> flag: every match, left to right, is
  replaced by \<open>rep\<close> of its captures; the search goes on after the match, and one character
  further after an empty match.
\<close>

function replace_all :: "bool \<Rightarrow> rx \<Rightarrow> ((nat \<times> jstring) list \<Rightarrow> jstring) \<Rightarrow> jchar option
    \<Rightarrow> jstring \<Rightarrow> jstring" where
  "replace_all ic r rep p s =
     (case ms ic r ([], p, s) of
        [] \<Rightarrow> (case s of [] \<Rightarrow> [] | c # cs \<Rightarrow> c # replace_all ic r rep (Some c) cs)
      | (caps, p', s') # _ \<Rightarrow>
          if length s' < length s then rep caps @ replace_all ic r rep p' s'
          else (case s of [] \<Rightarrow> rep caps
                | c # cs \<Rightarrow> rep caps @ c # replace_all ic r rep (Some c) cs))"
  by pat_completeness auto
termination
  by (relation "measure (\<lambda>(ic, r, rep, p, s). length s)") auto

text \<open>The replacement \<open>"$1"\<close>: the first group (empty when it took no part).\<close>

definition dollar1 :: "(nat \<times> jstring) list \<Rightarrow> jstring" where
  "dollar1 caps = (case map_of caps 1 of None \<Rightarrow> [] | Some g \<Rightarrow> g)"


section \<open>pages/api/extract.ts\<close>

datatype error =
    KeyNotSet                 \<comment> \<open>\<open>Error("OpenAI API key not set")\<close>\<close>
  | OpenAIError nat jstring   \<comment> \<open>\<open>Error(`OpenAI error: ${resp.status} ${body}`)\<close>\<close>
  | NotParsed                 \<comment> \<open>\<open>Error("OpenAI response could not be parsed as JSON")\<close>\<close>
  | SyntaxError               \<comment> \<open>what \<open>JSON.parse\<close> throws\<close>
  | TypeError                 \<comment> \<open>a property read on \<open>null\<close> or \<open>undefined\<close>, a call of a non-function\<close>

record Task =
  title :: jstring
  assignee :: "jstring option"
  due :: "jstring option"
  priority :: "jstring option"

record 't ResponseBody =
  tasks :: 't
  followUp :: jstring

subsection \<open>tidy\<close>

definition rx_space_punct :: rx where  \<comment> \<open>\<open>/\s+([.,;:!?])/g\<close>\<close>
  "rx_space_punct = Cat (Many 1 isSpace) (Grp 1 (Cls isPunct))"

definition rx_periods :: rx where  \<comment> \<open>\<open>/([.]){2,}/g\<close>; its group is not read\<close>
  "rx_periods = Many 2 isPeriod"

definition rx_spaces :: rx where  \<comment> \<open>\<open>/\s{2,}/g\<close>\<close>
  "rx_spaces = Many 2 isSpace"

definition tidy :: "jstring \<Rightarrow> jstring" where
  "tidy text =
     trim
       (replace_all False rx_spaces (\<lambda>_. js '' '') None
         (replace_all False rx_periods (\<lambda>_. js ''.'') None
           (replace_all False rx_space_punct dollar1 None text)))"

subsection \<open>mockExtract\<close>

definition rx_bullet :: rx where  \<comment> \<open>\<open>/^[-*]\s*/\<close>\<close>
  "rx_bullet = seq [Bol, Cls isBullet, Many 0 isSpace]"

definition rx_keyword :: rx where
  \<comment> \<open>\<open>/\b(action|action:|please|will|assign|assigned|due|deliver|todo)\b/i\<close>\<close>
  "rx_keyword =
     seq [WordB,
          Grp 1 (alts (map (\<lambda>w. Lit (js w))
            [''action'', ''action:'', ''please'', ''will'', ''assign'', ''assigned'', ''due'',
             ''deliver'', ''todo''])),
          WordB]"

definition rx_assignee :: rx where
  \<comment> \<open>\<open>/\b(?:assigned to|assign to|by)\s+([A-Z][a-zA-Z]+)/i\<close>\<close>
  "rx_assignee =
     seq [WordB,
          alts [Lit (js ''assigned to''), Lit (js ''assign to''), Lit (js ''by'')],
          Many 1 isSpace,
          Grp 1 (Cat (Cls isUpper) (Many 1 isLetter))]"

definition rx_capword :: rx where  \<comment> \<open>\<open>/\b([A-Z][a-z]{2,})\b/\<close>\<close>
  "rx_capword = seq [WordB, Grp 1 (Cat (Cls isUpper) (Many 2 isLower)), WordB]"

definition rx_due :: rx where  \<comment> \<open>\<open>/\b(by|before|on|due)\s+([A-Za-z0-9 ,.-]+)/i\<close>\<close>
  "rx_due =
     seq [WordB,
          Grp 1 (alts [Lit (js ''by''), Lit (js ''before''), Lit (js ''on''), Lit (js ''due'')]),
          Many 1 isSpace,
          Grp 2 (Many 1 isDueChar)]"

text \<open>\<open>m[i]\<close>: a TypeError when \<open>m\<close> is \<open>null\<close>, \<open>undefined\<close> for a group that took no part.\<close>

definition index :: "rmatch option \<Rightarrow> nat \<Rightarrow> error + jstring option" where
  "index m i =
     (case m of None \<Rightarrow> Inl TypeError
      | Some r \<Rightarrow> Inr (if i = 0 then Some (whole r) else map_of (groups r) i))"

text \<open>The test of the loop body's \<open>if\<close>.\<close>

definition is_action :: "jstring \<Rightarrow> bool" where
  "is_action line = (rx_test False rx_bullet line \<or> rx_test True rx_keyword line)"

text \<open>\<open>const cleaned = line.replace(/^[-*]\s*/g, "")\<close>\<close>

definition cleaned :: "jstring \<Rightarrow> jstring" where
  "cleaned line = replace_all False rx_bullet (\<lambda>_. []) None line"

text \<open>\<open>const title = cleaned.length > 250 ? cleaned.slice(0, 247) + "..." : cleaned\<close>\<close>

definition title_of :: "jstring \<Rightarrow> jstring" where
  "title_of c = (if length c > 250 then take 247 c @ js ''...'' else c)"

text \<open>The loop body for a line that passed the test: the task pushed.\<close>

definition line_task :: "jstring \<Rightarrow> error + Task" where
  "line_task line =
     (let assigneeMatch =
            (case str_match True rx_assignee (cleaned line) of
               Some m \<Rightarrow> Some m
             | None \<Rightarrow> str_match False rx_capword (cleaned line))
      in case (if assigneeMatch \<noteq> None then index assigneeMatch 1 else Inr None) of
           Inl e \<Rightarrow> Inl e
         | Inr assignee' \<Rightarrow>
             (let dueMatch = str_match True rx_due (cleaned line)
              in case (if dueMatch \<noteq> None then index dueMatch 2 else Inr None) of
                   Inl e \<Rightarrow> Inl e
                 | Inr due' \<Rightarrow>
                     Inr \<lparr>title = title_of (cleaned line),
                          assignee = assignee', due = due', priority = None\<rparr>))"

text \<open>The \<open>for\<close> loop over the lines, \<open>acc\<close> being the array \<open>tasks\<close> built so far.\<close>

fun collect :: "jstring list \<Rightarrow> Task list \<Rightarrow> error + Task list" where
  "collect [] acc = Inr acc"
| "collect (line # rest) acc =
     (if is_action line
      then (case line_task line of Inl e \<Rightarrow> Inl e | Inr t \<Rightarrow> collect rest (acc @ [t]))
      else collect rest acc)"

definition fallback :: Task where
  "fallback = \<lparr>title = js ''Review meeting notes and propose next steps'',
                assignee = None, due = None, priority = None\<rparr>"

definition lines_of :: "jstring \<Rightarrow> jstring list" where
  "lines_of text = filter (\<lambda>l. l \<noteq> []) (map trim (split_nl text))"

definition follow_template :: "Task list \<Rightarrow> jstring" where
  "follow_template ts =
     js ''Thanks everyone for the meeting. Next actions: '' @ join (js ''; '') (map title ts) @
     js ''. Please confirm owners and timelines.''"

definition mockExtract :: "jstring \<Rightarrow> error + Task list ResponseBody" where
  "mockExtract text =
     (case collect (lines_of text) [] of
        Inl e \<Rightarrow> Inl e
      | Inr found \<Rightarrow>
          (let tasks' = (if length found = 0 then found @ [fallback] else found);
               followUp' = tidy (follow_template tasks')
           in Inr \<lparr>tasks = tasks', followUp = followUp'\<rparr>))"

subsection \<open>callOpenAIExtract\<close>

text \<open>
  The values \<open>JSON.parse\<close> returns.  A number keeps its text: no claim reads its value.
  An object keeps its members in the order of the text; a later member of the same name
  hides an earlier one.
\<close>

datatype json =
    JNull
  | JBool bool
  | JNumber jstring
  | JString jstring
  | JArray "json list"
  | JObject "(jstring \<times> json) list"

text \<open>
  \<open>parsed.k\<close> for a name \<open>k\<close> that no prototype defines (\<open>tasks\<close>, \<open>followUp\<close>): a
  TypeError on \<open>null\<close>, the member of an object, \<open>undefined\<close> (\<open>None\<close>) otherwise.
\<close>

definition get_prop :: "json \<Rightarrow> jstring \<Rightarrow> error + json option" where
  "get_prop v k =
     (case v of
        JNull \<Rightarrow> Inl TypeError
      | JObject kvs \<Rightarrow> Inr (map_of (rev kvs) k)
      | _ \<Rightarrow> Inr None)"

text \<open>\<open>a ?? b\<close>\<close>

definition nullish :: "json option \<Rightarrow> json \<Rightarrow> json" where
  "nullish a b = (case a of None \<Rightarrow> b | Some JNull \<Rightarrow> b | Some v \<Rightarrow> v)"

text \<open>
  The object literal \<open>{ tasks: parsed.tasks ?? [], followUp: tidy(parsed.followUp ?? "") }\<close>.
  \<open>tidy\<close> calls \<open>text.replace\<close>, which a value that is no string does not have.
\<close>

definition from_parsed :: "json \<Rightarrow> error + json ResponseBody" where
  "from_parsed parsed =
     (case get_prop parsed (js ''tasks'') of
        Inl e \<Rightarrow> Inl e
      | Inr t \<Rightarrow>
          (case get_prop parsed (js ''followUp'') of
             Inl e \<Rightarrow> Inl e
           | Inr f \<Rightarrow>
               (case nullish f (JString []) of
                  JString s \<Rightarrow> Inr \<lparr>tasks = nullish t (JArray []), followUp = tidy s\<rparr>
                | _ \<Rightarrow> Inl TypeError)))"

text \<open>The body of each \<open>try\<close>: parse, then build the result.\<close>

definition try_parse :: "(jstring \<Rightarrow> json option) \<Rightarrow> jstring \<Rightarrow> error + json ResponseBody" where
  "try_parse parse c = (case parse c of None \<Rightarrow> Inl SyntaxError | Some v \<Rightarrow> from_parsed v)"

definition rx_json :: rx where  \<comment> \<open>\<open>/\{[\s\S]*\}/\<close>\<close>
  "rx_json = seq [Lit (js ''{''), Many 0 isAny, Lit (js ''}'')]"

text \<open>
  The answer of \<open>fetch\<close>, as far as the function reads it.  \<open>content\<close> is
  \<open>data?.choices?.[0]?.message?.content\<close> of the decoded body: a string, or \<open>None\<close> when
  it is \<open>undefined\<close> or \<open>null\<close>.  A rejected \<open>fetch\<close>, a body that \<open>resp.json()\<close> cannot
  decode and a content that is no string are outside the model.
\<close>

record response =
  ok :: bool
  status :: nat
  body :: jstring
  content :: "jstring option"

text \<open>
  \<open>parse\<close> is \<open>JSON.parse\<close> (\<open>None\<close> when it throws) and \<open>key\<close> is \<open>OPENAI_API_KEY\<close>.
  A \<open>catch\<close> takes every exception of its \<open>try\<close>, whatever its kind.
\<close>

definition callOpenAIExtract ::
    "(jstring \<Rightarrow> json option) \<Rightarrow> jstring \<Rightarrow> response \<Rightarrow> error + json ResponseBody" where
  "callOpenAIExtract parse key resp =
     (if key = [] then Inl KeyNotSet
      else if \<not> ok resp then Inl (OpenAIError (status resp) (body resp))
      else
        (let c = (case content resp of None \<Rightarrow> [] | Some s \<Rightarrow> s)
         in case try_parse parse c of
              Inr r \<Rightarrow> Inr r
            | Inl _ \<Rightarrow>
                (case str_match False rx_json c of
                   None \<Rightarrow> Inl NotParsed
                 | Some jsonMatch \<Rightarrow>
                     (case try_parse parse (whole jsonMatch) of
                        Inr r \<Rightarrow> Inr r
                      | Inl _ \<Rightarrow> Inl NotParsed))))"

subsection \<open>JSON.parse\<close>

text \<open>
  The JSON grammar of ECMA-404, which \<open>JSON.parse\<close> accepts.  The recursion over nested
  values is bounded by a counter, which \<open>JSON_parse\<close> starts at twice the length of its
  input plus two; a parse that used it up would count as rejected.  The claims read
  \<open>JSON_parse\<close> at concrete inputs only and hold for every parser otherwise.
\<close>

definition isJsonSpace :: "jchar \<Rightarrow> bool" where
  "isJsonSpace c = (c \<in> {0x20, 0x9, 0xA, 0xD})"

definition isHex :: "jchar \<Rightarrow> bool" where
  "isHex c = (isDigit c \<or> (0x41 \<le> c \<and> c \<le> 0x46) \<or> (0x61 \<le> c \<and> c \<le> 0x66))"

definition hexval :: "jchar \<Rightarrow> jchar" where
  "hexval c = (if isDigit c then c - 0x30 else if c \<le> 0x46 then c - 0x37 else c - 0x57)"

text \<open>The character an escape \<open>\e\<close> stands for.\<close>

definition unescape :: "jchar \<Rightarrow> jchar option" where
  "unescape e =
     (if e = 0x22 \<or> e = 0x5C \<or> e = 0x2F then Some e
      else if e = 0x62 then Some 0x8
      else if e = 0x66 then Some 0xC
      else if e = 0x6E then Some 0xA
      else if e = 0x72 then Some 0xD
      else if e = 0x74 then Some 0x9
      else None)"

text \<open>The characters of a string after its opening quote, up to the closing one.\<close>

fun parse_chars :: "jstring \<Rightarrow> (jstring \<times> jstring) option" where
  "parse_chars [] = None"
| "parse_chars (c # cs) =
     (if c = 0x22 then Some ([], cs)
      else if c = 0x5C then
        (case cs of
           [] \<Rightarrow> None
         | e # es \<Rightarrow>
             if e = 0x75 then
               (case es of
                  h1 # h2 # h3 # h4 # rest \<Rightarrow>
                    if isHex h1 \<and> isHex h2 \<and> isHex h3 \<and> isHex h4
                    then map_option
                           (\<lambda>(str, r).
                              ((hexval h1 * 0x1000 + hexval h2 * 0x100 + hexval h3 * 0x10 +
                                hexval h4) # str, r))
                           (parse_chars rest)
                    else None
                | _ \<Rightarrow> None)
             else
               (case unescape e of
                  None \<Rightarrow> None
                | Some x \<Rightarrow> map_option (\<lambda>(str, r). (x # str, r)) (parse_chars es)))
      else if c < 0x20 then None
      else map_option (\<lambda>(str, r). (c # str, r)) (parse_chars cs))"

text \<open>A run of digits, at least one.\<close>

definition digits1 :: "jstring \<Rightarrow> (jstring \<times> jstring) option" where
  "digits1 s =
     (if takeWhile isDigit s = [] then None else Some (takeWhile isDigit s, dropWhile isDigit s))"

text \<open>\<open>-? (0 | [1-9][0-9]*) (\.[0-9]+)? ([eE][+-]?[0-9]+)?\<close>\<close>

definition parse_number :: "jstring \<Rightarrow> (jstring \<times> jstring) option" where
  "parse_number s =
     (let (sign, s1) = (case s of c # cs \<Rightarrow> if c = 0x2D then ([c], cs) else ([], s) | [] \<Rightarrow> ([], s))
      in case (case s1 of
                 c # cs \<Rightarrow> if c = 0x30 then Some ([c], cs) else digits1 s1
               | [] \<Rightarrow> None) of
           None \<Rightarrow> None
         | Some (int_part, s2) \<Rightarrow>
             (case (case s2 of
                      c # cs \<Rightarrow>
                        if c = 0x2E then map_option (\<lambda>(d, r). (c # d, r)) (digits1 cs)
                        else Some ([], s2)
                    | [] \<Rightarrow> Some ([], s2)) of
                None \<Rightarrow> None
              | Some (frac, s3) \<Rightarrow>
                  (case (case s3 of
                           c # cs \<Rightarrow>
                             if c = 0x65 \<or> c = 0x45 then
                               (case cs of
                                  d # ds \<Rightarrow>
                                    if d = 0x2B \<or> d = 0x2D
                                    then map_option (\<lambda>(x, r). (c # d # x, r)) (digits1 ds)
                                    else map_option (\<lambda>(x, r). (c # x, r)) (digits1 cs)
                                | [] \<Rightarrow> None)
                             else Some ([], s3)
                         | [] \<Rightarrow> Some ([], s3)) of
                     None \<Rightarrow> None
                   | Some (ex, s4) \<Rightarrow> Some (sign @ int_part @ frac @ ex, s4))))"

definition skip_ws :: "jstring \<Rightarrow> jstring" where
  "skip_ws s = dropWhile isJsonSpace s"

text \<open>\<open>starts w s\<close>: the rest of \<open>s\<close> after the word \<open>w\<close>, when \<open>s\<close> begins with it.\<close>

definition starts :: "jstring \<Rightarrow> jstring \<Rightarrow> jstring option" where
  "starts w s = (if take (length w) s = w then Some (drop (length w) s) else None)"

fun parse_value :: "nat \<Rightarrow> jstring \<Rightarrow> (json \<times> jstring) option"
  and parse_elems :: "nat \<Rightarrow> jstring \<Rightarrow> (json list \<times> jstring) option"
  and parse_members :: "nat \<Rightarrow> jstring \<Rightarrow> ((jstring \<times> json) list \<times> jstring) option" where
  "parse_value 0 s = None"
| "parse_value (Suc n) s =
     (case skip_ws s of
        [] \<Rightarrow> None
      | c # cs \<Rightarrow>
          if c = 0x22 then map_option (\<lambda>(str, r). (JString str, r)) (parse_chars cs)
          else if c = 0x5B then
            (case starts (js '']'') (skip_ws cs) of
               Some r \<Rightarrow> Some (JArray [], r)
             | None \<Rightarrow> map_option (\<lambda>(vs, r). (JArray vs, r)) (parse_elems n cs))
          else if c = 0x7B then
            (case starts (js ''}'') (skip_ws cs) of
               Some r \<Rightarrow> Some (JObject [], r)
             | None \<Rightarrow> map_option (\<lambda>(kvs, r). (JObject kvs, r)) (parse_members n cs))
          else if starts (js ''null'') (c # cs) \<noteq> None
            then Some (JNull, drop 4 (c # cs))
          else if starts (js ''true'') (c # cs) \<noteq> None
            then Some (JBool True, drop 4 (c # cs))
          else if starts (js ''false'') (c # cs) \<noteq> None
            then Some (JBool False, drop 5 (c # cs))
          else map_option (\<lambda>(num, r). (JNumber num, r)) (parse_number (c # cs)))"
| "parse_elems 0 s = None"
| "parse_elems (Suc n) s =
     (case parse_value n s of
        None \<Rightarrow> None
      | Some (v, r) \<Rightarrow>
          (case skip_ws r of
             [] \<Rightarrow> None
           | c # cs \<Rightarrow>
               if c = 0x2C then map_option (\<lambda>(vs, r'). (v # vs, r')) (parse_elems n cs)
               else if c = 0x5D then Some ([v], cs)
               else None))"
| "parse_members 0 s = None"
| "parse_members (Suc n) s =
     (case skip_ws s of
        [] \<Rightarrow> None
      | q # cs \<Rightarrow>
          if q \<noteq> 0x22 then None
          else
            (case parse_chars cs of
               None \<Rightarrow> None
             | Some (k, r) \<Rightarrow>
                 (case skip_ws r of
                    [] \<Rightarrow> None
                  | c # r1 \<Rightarrow>
                      if c \<noteq> 0x3A then None
                      else
                        (case parse_value n r1 of
                           None \<Rightarrow> None
                         | Some (v, r2) \<Rightarrow>
                             (case skip_ws r2 of
                                [] \<Rightarrow> None
                              | d # r3 \<Rightarrow>
                                  if d = 0x2C
                                  then map_option (\<lambda>(kvs, r'). ((k, v) # kvs, r'))
                                         (parse_members n r3)
                                  else if d = 0x7D then Some ([(k, v)], r3)
                                  else None)))))"

definition JSON_parse :: "jstring \<Rightarrow> json option" where
  "JSON_parse s =
     (case parse_value (2 * length s + 2) s of
        None \<Rightarrow> None
      | Some (v, r) \<Rightarrow> if skip_ws r = [] then Some v else None)"

section \<open>pages/index.tsx\<close>

definition cleanFollowUp :: "jstring \<Rightarrow> jstring" where
  "cleanFollowUp text =
     trim
       (replace_all False rx_spaces (\<lambda>_. js '' '') None
         (replace_all False rx_periods (\<lambda>_. js ''.'') None
           (replace_all False rx_space_punct dollar1 None text)))"


section \<open>Notions used in the statements and proofs\<close>

text \<open>
  The passes of \<open>tidy\<close>: \<open>unspace\<close> deletes the white space before a punctuation mark,
  \<open>squeeze P r\<close> replaces every run of two or more characters of the class \<open>P\<close> by \<open>r\<close>.
\<close>

definition unspace :: "jstring \<Rightarrow> jstring" where
  "unspace s = replace_all False rx_space_punct dollar1 None s"

definition squeeze :: "(jchar \<Rightarrow> bool) \<Rightarrow> jchar \<Rightarrow> jstring \<Rightarrow> jstring" where
  "squeeze P r s = replace_all False (Many 2 P) (\<lambda>_. [r]) None s"

text \<open>
  A text is normalised when no white space stands before a punctuation mark, no two
  periods and no two white-space characters are neighbours.
\<close>

definition normalised :: "jstring \<Rightarrow> bool" where
  "normalised s =
     (successively (\<lambda>a b. \<not> (isSpace a \<and> isPunct b)) s \<and>
      successively (\<lambda>a b. \<not> (isPeriod a \<and> isPeriod b)) s \<and>
      successively (\<lambda>a b. \<not> (isSpace a \<and> isSpace b)) s)"

text \<open>
  The words of the specification for what \<open>/\{[\s\S]*\}/\<close> finds: the substring from the
  first \<open>{\<close> to the last \<open>}\<close>, when a \<open>}\<close> follows the first \<open>{\<close>.  Lemma
  \<open>match_json\<close> shows that the pattern finds exactly that.
\<close>

definition brace_block :: "jstring \<Rightarrow> jstring option" where
  "brace_block s =
     (let t = dropWhile (\<lambda>c. c \<noteq> 0x7B) s
      in if t \<noteq> [] \<and> 0x7D \<in> set (tl t)
         then Some (rev (dropWhile (\<lambda>c. c \<noteq> 0x7D) (rev t)))
         else None)"

text \<open>
  Where a match of \<open>/\{[\s\S]*\}/\<close> can end once its \<open>{\<close> is read, the longest first.
\<close>

definition block_ends :: "jchar option \<Rightarrow> jstring \<Rightarrow> mstate list" where
  "block_ends p cs =
     concat (map (ms False (Lit [0x7D])) (map (\<lambda>(p', s'). ([], p', s')) (many False isAny 0 p cs)))"


text \<open>
  A text gives a result when \<open>JSON.parse\<close> accepts it and the two members can be read
  from the value: the value is not \<open>null\<close> (reading a member of \<open>null\<close> throws), and its
  member \<open>followUp\<close> is absent, \<open>null\<close> or a string (\<open>tidy\<close> of anything else throws).
  Lemma \<open>try_parse_gives\<close> shows that these are the texts on which the body of a \<open>try\<close>
  block completes.
\<close>

definition gives_result :: "(jstring \<Rightarrow> json option) \<Rightarrow> jstring \<Rightarrow> bool" where
  "gives_result parse x =
     (case parse x of
        None \<Rightarrow> False
      | Some JNull \<Rightarrow> False
      | Some (JObject kvs) \<Rightarrow>
          (case map_of (rev kvs) (js ''followUp'') of
             None \<Rightarrow> True
           | Some JNull \<Rightarrow> True
           | Some (JString s) \<Rightarrow> True
           | Some _ \<Rightarrow> False)
      | Some _ \<Rightarrow> True)"


section \<open>The passes of tidy\<close>

declare replace_all.simps [simp del]
declare dropWhile_eq_Nil_conv [simp del]

lemma replace_all_Nil: "replace_all ic r rep p [] = (case ms ic r ([], p, []) of [] \<Rightarrow> [] | (caps, p', s') # _ \<Rightarrow> rep caps)"
  by (subst replace_all.simps) (auto split: list.splits)

lemma replace_all_Cons: "replace_all ic r rep p (c # cs) =
     (case ms ic r ([], p, c # cs) of
        [] \<Rightarrow> c # replace_all ic r rep (Some c) cs
      | (caps, p', s') # _ \<Rightarrow>
          if length s' < Suc (length cs) then rep caps @ replace_all ic r rep p' s'
          else rep caps @ c # replace_all ic r rep (Some c) cs)"
  by (subst replace_all.simps) (auto split: list.splits)

lemma isPunct_not_space: "isPunct c \<Longrightarrow> \<not> isSpace c"
  by (auto simp: isPunct_def isSpace_def js_def)

lemma isPeriod_not_space: "isPeriod c \<Longrightarrow> \<not> isSpace c"
  by (auto simp: isPeriod_def isSpace_def)

lemma isPeriod_punct: "isPeriod c \<Longrightarrow> isPunct c"
  by (auto simp: isPeriod_def isPunct_def js_def)

lemma many_empty_iff:
  "many ic P n p s = [] \<longleftrightarrow> length (takeWhile (cls_match ic P) s) < n"
  by (induction s arbitrary: n p) auto

lemma many_hd:
  "n \<le> length (takeWhile (cls_match ic P) s) \<Longrightarrow>
   \<exists>p' rest. many ic P n p s = (p', dropWhile (cls_match ic P) s) # rest"
proof (induction s arbitrary: n p)
  case Nil
  then show ?case by simp
next
  case (Cons c cs)
  show ?case
  proof (cases "cls_match ic P c")
    case True
    with Cons.prems have "n - 1 \<le> length (takeWhile (cls_match ic P) cs)" by simp
    from Cons.IH [OF this, of "Some c"] True show ?thesis by auto
  next
    case False
    with Cons.prems show ?thesis by simp
  qed
qed



lemma cls_match_False [simp]: "cls_match False P = P"
  by (rule ext) (simp add: cls_match_def)

lemma many2_cases:
  "(\<exists>p' rest. many False P 2 p (c # cs) = (p', dropWhile P cs) # rest \<and> P c \<and> cs \<noteq> [] \<and> P (hd cs)) \<or>
   (many False P 2 p (c # cs) = [] \<and> \<not> (P c \<and> cs \<noteq> [] \<and> P (hd cs)))"
proof (cases "P c \<and> cs \<noteq> [] \<and> P (hd cs)")
  case True
  then obtain d ds where cs: "cs = d # ds" and d: "P d" and c: "P c" by (cases cs) auto
  then have "2 \<le> length (takeWhile (cls_match False P) (c # cs))" by simp
  from many_hd [OF this, of p] obtain p' rest where
    "many False P 2 p (c # cs) = (p', dropWhile (cls_match False P) (c # cs)) # rest" by blast
  with True c show ?thesis by simp
next
  case False
  then have "length (takeWhile (cls_match False P) (c # cs)) < 2"
    by (cases cs) auto
  then have "many False P 2 p (c # cs) = []" by (simp only: many_empty_iff)
  with False show ?thesis by blast
qed

lemma squeeze_step:
  "replace_all False (Many 2 P) (\<lambda>_. [r]) p (c # cs) =
     (if P c \<and> cs \<noteq> [] \<and> P (hd cs)
      then r # replace_all False (Many 2 P) (\<lambda>_. [r])
                 (fst (hd (many False P 2 p (c # cs)))) (dropWhile P cs)
      else c # replace_all False (Many 2 P) (\<lambda>_. [r]) (Some c) cs)"
proof -
  have le: "length (dropWhile P cs) < Suc (length cs)"
    by (simp add: length_dropWhile_le less_Suc_eq_le)
  from many2_cases [of P p c cs] show ?thesis
  proof
    assume "\<exists>p' rest. many False P 2 p (c # cs) = (p', dropWhile P cs) # rest \<and> P c \<and> cs \<noteq> [] \<and> P (hd cs)"
    then obtain p' rest where m: "many False P 2 p (c # cs) = (p', dropWhile P cs) # rest"
      and t: "P c \<and> cs \<noteq> [] \<and> P (hd cs)" by blast
    show ?thesis
      by (subst replace_all_Cons) (simp add: m t le del: many.simps)
  next
    assume a: "many False P 2 p (c # cs) = [] \<and> \<not> (P c \<and> cs \<noteq> [] \<and> P (hd cs))"
    show ?thesis
      by (subst replace_all_Cons) (simp add: a del: many.simps)
  qed
qed

lemma squeeze_any_prev: "replace_all False (Many 2 P) (\<lambda>_. [r]) p s = squeeze P r s"
proof (induction "length s" arbitrary: s p rule: less_induct)
  case less
  show ?case
  proof (cases s)
    case Nil
    then show ?thesis by (simp add: squeeze_def replace_all_Nil)
  next
    case (Cons c cs)
    have le: "length (dropWhile P cs) < length s"
      using Cons by (simp add: length_dropWhile_le less_Suc_eq_le)
    have lt: "length cs < length s" using Cons by simp
    show ?thesis
      unfolding Cons squeeze_def
      by (simp only: squeeze_step less [OF le] less [OF lt])
  qed
qed

lemma squeeze_Nil [simp]: "squeeze P r [] = []"
  by (simp add: squeeze_def replace_all_Nil)

lemma squeeze_Cons:
  "squeeze P r (c # cs) =
     (if P c \<and> cs \<noteq> [] \<and> P (hd cs) then r # squeeze P r (dropWhile P cs)
      else c # squeeze P r cs)"
  unfolding squeeze_def
  by (subst squeeze_step) (simp only: squeeze_any_prev squeeze_def [symmetric])


lemma punct_after_spaces:
  "concat (map (ms False (Grp 1 (Cls isPunct)))
      (map (\<lambda>(p', s'). ([], p', s')) (many False isSpace 0 p s))) =
   (case dropWhile isSpace s of
      [] \<Rightarrow> []
    | q # rest \<Rightarrow> if isPunct q then [([(1, [q])], Some q, rest)] else [])"
  by (induction s arbitrary: p) (auto simp: isPunct_not_space)

lemma ms_space_punct:
  "ms False rx_space_punct ([], p, c # cs) =
   (case dropWhile isSpace cs of
      [] \<Rightarrow> []
    | q # rest \<Rightarrow> if isSpace c \<and> isPunct q then [([(1, [q])], Some q, rest)] else [])"
proof -
  have "ms False rx_space_punct ([], p, c # cs) =
      (if isSpace c
       then concat (map (ms False (Grp 1 (Cls isPunct)))
              (map (\<lambda>(p', s'). ([], p', s')) (many False isSpace 0 (Some c) cs)))
       else [])"
    by (simp add: rx_space_punct_def)
  also have "\<dots> = (case dropWhile isSpace cs of
      [] \<Rightarrow> []
    | q # rest \<Rightarrow> if isSpace c \<and> isPunct q then [([(1, [q])], Some q, rest)] else [])"
  proof (cases "dropWhile isSpace cs")
    case Nil
    then show ?thesis by (simp only: punct_after_spaces list.case if_cancel)
  next
    case (Cons q rest)
    then show ?thesis by (simp only: punct_after_spaces list.case) auto
  qed
  finally show ?thesis .
qed

lemma ms_space_punct_Nil: "ms False rx_space_punct ([], p, []) = []"
  by (simp add: rx_space_punct_def)

lemma length_dropWhile_tail:
  "dropWhile P cs = q # rest \<Longrightarrow> length rest < Suc (length cs)"
  using length_dropWhile_le [of P cs] by simp

lemma unspace_step:
  "replace_all False rx_space_punct dollar1 p (c # cs) =
   (case dropWhile isSpace cs of
      [] \<Rightarrow> c # replace_all False rx_space_punct dollar1 (Some c) cs
    | q # rest \<Rightarrow>
        if isSpace c \<and> isPunct q then q # replace_all False rx_space_punct dollar1 (Some q) rest
        else c # replace_all False rx_space_punct dollar1 (Some c) cs)"
proof (cases "dropWhile isSpace cs")
  case Nil
  then show ?thesis
    by (subst replace_all_Cons) (simp only: ms_space_punct list.case)
next
  case (Cons q rest)
  have "length rest < Suc (length cs)" using Cons by (rule length_dropWhile_tail)
  then show ?thesis
    by (subst replace_all_Cons) (simp add: ms_space_punct dollar1_def Cons del: dropWhile_eq_Nil_conv)
qed

lemma unspace_any_prev: "replace_all False rx_space_punct dollar1 p s = unspace s"
proof (induction "length s" arbitrary: s p rule: less_induct)
  case less
  show ?case
  proof (cases s)
    case Nil
    then show ?thesis by (simp add: unspace_def replace_all_Nil ms_space_punct_Nil)
  next
    case c: (Cons c cs)
    have lt: "length cs < length s" using c by simp
    show ?thesis
    proof (cases "dropWhile isSpace cs")
      case Nil
      then show ?thesis
        unfolding c unspace_def by (simp only: unspace_step less [OF lt] list.case)
    next
      case (Cons q rest)
      then have "length rest < length s"
        using length_dropWhile_tail [of isSpace cs q rest] c by simp
      note r = less [OF this]
      show ?thesis
        unfolding c unspace_def by (simp only: unspace_step less [OF lt] r Cons list.case)
    qed
  qed
qed

lemma unspace_Nil [simp]: "unspace [] = []"
  by (simp add: unspace_def replace_all_Nil ms_space_punct_Nil)

lemma unspace_Cons:
  "unspace (c # cs) =
   (case dropWhile isSpace cs of
      [] \<Rightarrow> c # unspace cs
    | q # rest \<Rightarrow> if isSpace c \<and> isPunct q then q # unspace rest else c # unspace cs)"
  unfolding unspace_def
  by (subst unspace_step) (simp only: unspace_any_prev unspace_def [symmetric])

lemma tidy_steps: "tidy s = trim (squeeze isSpace 0x20 (squeeze isPeriod 0x2E (unspace s)))"
  by (simp add: tidy_def squeeze_def unspace_def js_def rx_spaces_def rx_periods_def)


subsection \<open>Properties of squeeze\<close>

lemma squeeze_fix:
  "successively (\<lambda>a b. \<not> (P a \<and> P b)) s \<Longrightarrow> squeeze P r s = s"
proof (induction s)
  case Nil
  show ?case by simp
next
  case (Cons c cs)
  then show ?case
    by (cases cs) (auto simp: squeeze_Cons)
qed

lemma squeeze_keeps_head:
  "\<not> P c \<Longrightarrow> squeeze P r (c # cs) = c # squeeze P r cs"
  by (simp add: squeeze_Cons)

lemma squeeze_after_run:
  "squeeze P r (dropWhile P cs) = [] \<or>
   (\<exists>d ds. squeeze P r (dropWhile P cs) = d # ds \<and> \<not> P d)"
proof (cases "dropWhile P cs")
  case Nil
  then show ?thesis by simp
next
  case (Cons d ds)
  then have "\<not> P d" by (metis hd_dropWhile list.sel(1) list.distinct(1))
  with Cons show ?thesis by (simp add: squeeze_keeps_head)
qed

lemma squeeze_no_pair:
  assumes r: "P r"
  shows "successively (\<lambda>a b. \<not> (P a \<and> P b)) (squeeze P r s)"
proof (induction "length s" arbitrary: s rule: less_induct)
  case less
  show ?case
  proof (cases s)
    case Nil
    then show ?thesis by simp
  next
    case c: (Cons c cs)
    have le: "length (dropWhile P cs) < length s"
      using c by (simp add: length_dropWhile_le less_Suc_eq_le)
    have lt: "length cs < length s" using c by simp
    show ?thesis
    proof (cases "P c \<and> cs \<noteq> [] \<and> P (hd cs)")
      case True
      from squeeze_after_run [of P r cs] less [OF le] True show ?thesis
        unfolding c by (auto simp: squeeze_Cons successively_Cons)
    next
      case False
      show ?thesis
      proof (cases cs)
        case Nil
        then show ?thesis unfolding c by (simp add: squeeze_Cons)
      next
        case (Cons d ds)
        show ?thesis
        proof (cases "P d")
          case True
          with False Cons have "\<not> P c" by simp
          with less [OF lt] show ?thesis
            unfolding c by (auto simp: squeeze_Cons successively_Cons)
        next
          case nd: False
          from less [OF lt] have "successively (\<lambda>a b. \<not> (P a \<and> P b)) (d # squeeze P r ds)"
            unfolding Cons by (simp add: squeeze_keeps_head nd)
          then show ?thesis
            unfolding c Cons using nd by (simp add: squeeze_Cons squeeze_keeps_head)
        qed
      qed
    qed
  qed
qed

lemma squeeze_preserves_aux:
  assumes inv: "\<And>a x. P a \<Longrightarrow> R x a \<Longrightarrow> R x r" "\<And>a y. P a \<Longrightarrow> R a y \<Longrightarrow> R r y"
  shows "successively R (xs @ s) \<Longrightarrow> successively R (xs @ squeeze P r s)"
proof (induction "length s" arbitrary: s xs rule: less_induct)
  case less
  show ?case
  proof (cases s)
    case Nil
    with less.prems show ?thesis by simp
  next
    case c: (Cons c cs)
    have le: "length (dropWhile P cs) < length s"
      using c by (simp add: length_dropWhile_le less_Suc_eq_le)
    have lt: "length cs < length s" using c by simp
    show ?thesis
    proof (cases "P c \<and> cs \<noteq> [] \<and> P (hd cs)")
      case True
      define run where "run = c # takeWhile P cs"
      define rest where "rest = dropWhile P cs"
      have s: "s = run @ rest" by (simp add: run_def rest_def c)
      have "\<forall>x\<in>set run. P x"
        using True by (auto simp: run_def dest: set_takeWhileD)
      moreover have "run \<noteq> []" by (simp add: run_def)
      ultimately have run: "run \<noteq> []" "P (last run)"
        using last_in_set by blast+
      have hd_run: "hd run = c" by (simp add: run_def)
      from less.prems have "successively R (xs @ (run @ rest))" by (simp only: s)
      then have xs: "successively R xs" and rr: "successively R (run @ rest)"
        and j1: "xs = [] \<or> R (last xs) (hd (run @ rest))"
        using run(1) by (auto simp: successively_append_iff)
      from rr have rest: "successively R rest" and j2: "rest = [] \<or> R (last run) (hd rest)"
        using run(1) by (auto simp: successively_append_iff)
      from j1 have j1': "xs = [] \<or> R (last xs) c"
        using run(1) hd_run by simp
      have "xs = [] \<or> R (last xs) r" using j1' inv(1) True by blast
      moreover have "rest = [] \<or> R r (hd rest)" using j2 inv(2) run(2) by blast
      ultimately have "successively R ((xs @ [r]) @ rest)"
        using xs rest by (auto simp: successively_append_iff successively_Cons)
      from less.hyps [OF le [folded rest_def] this] show ?thesis
        using True by (simp add: c squeeze_Cons rest_def)
    next
      case False
      from less.prems have "successively R ((xs @ [c]) @ cs)" by (simp add: c)
      from less.hyps [OF lt this] show ?thesis
        using False by (auto simp: c squeeze_Cons)
    qed
  qed
qed

lemma squeeze_preserves:
  assumes "\<And>a x. P a \<Longrightarrow> R x a \<Longrightarrow> R x r" "\<And>a y. P a \<Longrightarrow> R a y \<Longrightarrow> R r y"
    and "successively R s"
  shows "successively R (squeeze P r s)"
  using squeeze_preserves_aux [of P R r "[]" s] assms by simp

subsection \<open>Properties of unspace\<close>

lemma unspace_fix:
  "successively (\<lambda>a b. \<not> (isSpace a \<and> isPunct b)) s \<Longrightarrow> unspace s = s"
proof (induction s)
  case Nil
  show ?case by simp
next
  case (Cons c cs)
  from Cons.prems have tl: "successively (\<lambda>a b. \<not> (isSpace a \<and> isPunct b)) cs"
    by (auto simp: successively_Cons)
  show ?case
  proof (cases "dropWhile isSpace cs")
    case Nil
    then show ?thesis by (simp only: unspace_Cons list.case Cons.IH [OF tl])
  next
    case d: (Cons q rest)
    define run where "run = c # takeWhile isSpace cs"
    have eq: "c # cs = run @ q # rest"
      unfolding run_def using d by (metis append_Cons takeWhile_dropWhile_id)
    have ne: "run \<noteq> []" by (simp add: run_def)
    from Cons.prems have "successively (\<lambda>a b. \<not> (isSpace a \<and> isPunct b)) (run @ q # rest)"
      by (simp only: eq)
    with ne have "\<not> (isSpace (last run) \<and> isPunct q)"
      by (simp add: successively_append_iff)
    moreover have "isSpace (last run)" if "isSpace c"
    proof -
      have "\<forall>x\<in>set run. isSpace x"
        using that by (auto simp: run_def dest: set_takeWhileD)
      with ne show ?thesis using last_in_set by blast
    qed
    ultimately have "\<not> (isSpace c \<and> isPunct q)" by blast
    then show ?thesis by (simp only: unspace_Cons d list.case Cons.IH [OF tl] if_False)
  qed
qed

lemma unspace_head_punct:
  assumes "unspace s = x # out" "isPunct x"
  shows "\<exists>q rest. dropWhile isSpace s = q # rest \<and> isPunct q"
proof (cases s)
  case Nil
  with assms show ?thesis by simp
next
  case c: (Cons c cs)
  show ?thesis
  proof (cases "dropWhile isSpace cs")
    case Nil
    with assms have "x = c" by (simp add: c unspace_Cons)
    with assms(2) show ?thesis by (simp add: c isPunct_not_space)
  next
    case d: (Cons q rest)
    show ?thesis
    proof (cases "isSpace c \<and> isPunct q")
      case True
      then show ?thesis by (simp add: c d)
    next
      case False
      with assms have "x = c" by (simp add: c unspace_Cons d)
      with assms(2) show ?thesis by (simp add: c isPunct_not_space)
    qed
  qed
qed

lemma unspace_no_pair:
  "successively (\<lambda>a b. \<not> (isSpace a \<and> isPunct b)) (unspace s)"
proof (induction "length s" arbitrary: s rule: less_induct)
  case less
  show ?case
  proof (cases s)
    case Nil
    then show ?thesis by simp
  next
    case c: (Cons c cs)
    have lt: "length cs < length s" using c by simp
    have keep: "successively (\<lambda>a b. \<not> (isSpace a \<and> isPunct b)) (c # unspace cs)"
      if "\<not> (\<exists>q rest. dropWhile isSpace cs = q # rest \<and> isSpace c \<and> isPunct q)"
    proof (cases "unspace cs")
      case Nil
      then show ?thesis by simp
    next
      case (Cons x out)
      have "\<not> (isSpace c \<and> isPunct x)"
        using unspace_head_punct [OF Cons] that by blast
      with less [OF lt] Cons show ?thesis by (simp add: successively_Cons)
    qed
    show ?thesis
    proof (cases "dropWhile isSpace cs")
      case Nil
      with keep show ?thesis by (simp add: c unspace_Cons)
    next
      case d: (Cons q rest)
      show ?thesis
      proof (cases "isSpace c \<and> isPunct q")
        case True
        have "length rest < length s"
          using length_dropWhile_tail [OF d] c by simp
        from less [OF this] True show ?thesis
          by (auto simp: c unspace_Cons d successively_Cons isPunct_not_space)
      next
        case False
        with keep d show ?thesis by (auto simp: c unspace_Cons)
      qed
    qed
  qed
qed

subsection \<open>Properties of trim\<close>

lemma successively_dropWhile:
  "successively R s \<Longrightarrow> successively R (dropWhile Q s)"
  by (metis successively_append_iff takeWhile_dropWhile_id)

lemma trim_preserves: "successively R s \<Longrightarrow> successively R (trim s)"
  unfolding trim_def
  by (simp add: successively_rev successively_dropWhile)

lemma dropWhile_trim: "dropWhile isSpace (trim s) = trim s"
proof (cases "trim s")
  case Nil
  then show ?thesis by simp
next
  case (Cons x xs)
  define a where "a = dropWhile isSpace s"
  have "a = trim s @ rev (takeWhile isSpace (rev a))"
    unfolding trim_def a_def
    by (metis rev_append rev_rev_ident takeWhile_dropWhile_id)
  with Cons have "a \<noteq> []" "hd a = x" by (metis append_Cons list.distinct(1) list.sel(1))+
  then have "\<not> isSpace x" unfolding a_def by (metis hd_dropWhile)
  with Cons show ?thesis by simp
qed

lemma trim_idem: "trim (trim s) = trim s"
proof -
  have "trim (trim s) = rev (dropWhile isSpace (rev (trim s)))"
    by (simp add: trim_def [of "trim s"] dropWhile_trim)
  also have "\<dots> = trim s"
    by (simp add: trim_def)
  finally show ?thesis .
qed


subsection \<open>tidy is idempotent\<close>

lemma space_facts: "isSpace 0x20" "\<not> isPunct 0x20" "\<not> isPeriod 0x20" "isPeriod 0x2E"
  by (simp_all add: isSpace_def isPunct_def isPeriod_def js_def)

lemma tidy_no_space_punct:
  "successively (\<lambda>a b. \<not> (isSpace a \<and> isPunct b)) (tidy s)"
proof -
  let ?R = "\<lambda>a b. \<not> (isSpace a \<and> isPunct b)"
  have "successively ?R (squeeze isPeriod 0x2E (unspace s))"
    by (rule squeeze_preserves [OF _ _ unspace_no_pair]) (simp_all add: isPeriod_def)
  then have "successively ?R (squeeze isSpace 0x20 (squeeze isPeriod 0x2E (unspace s)))"
    by (rule squeeze_preserves [rotated 2]) (simp_all add: space_facts)
  then show ?thesis
    unfolding tidy_steps by (rule trim_preserves)
qed

lemma tidy_no_periods:
  "successively (\<lambda>a b. \<not> (isPeriod a \<and> isPeriod b)) (tidy s)"
proof -
  let ?R = "\<lambda>a b. \<not> (isPeriod a \<and> isPeriod b)"
  have "successively ?R (squeeze isPeriod 0x2E (unspace s))"
    by (rule squeeze_no_pair) (rule space_facts)
  then have "successively ?R (squeeze isSpace 0x20 (squeeze isPeriod 0x2E (unspace s)))"
    by (rule squeeze_preserves [rotated 2]) (auto simp: space_facts dest: isPeriod_not_space)
  then show ?thesis
    unfolding tidy_steps by (rule trim_preserves)
qed

lemma tidy_no_spaces:
  "successively (\<lambda>a b. \<not> (isSpace a \<and> isSpace b)) (tidy s)"
  unfolding tidy_steps
  by (rule trim_preserves) (rule squeeze_no_pair, rule space_facts)

lemma tidy_fix:
  assumes "successively (\<lambda>a b. \<not> (isSpace a \<and> isPunct b)) s"
    and "successively (\<lambda>a b. \<not> (isPeriod a \<and> isPeriod b)) s"
    and "successively (\<lambda>a b. \<not> (isSpace a \<and> isSpace b)) s"
    and "trim s = s"
  shows "tidy s = s"
  using assms by (simp add: tidy_steps unspace_fix squeeze_fix)

lemma trim_tidy: "trim (tidy s) = tidy s"
  unfolding tidy_steps by (rule trim_idem)

lemma tidy_twice: "tidy (tidy t) = tidy t"
  by (rule tidy_fix) (rule tidy_no_space_punct tidy_no_periods tidy_no_spaces trim_tidy)+

lemma cleanFollowUp_eq_tidy: "cleanFollowUp s = tidy s"
  by (simp add: cleanFollowUp_def tidy_def)



section \<open>The heuristic extractor\<close>

lemma line_task_Inr:
  "\<exists>a d. line_task l = Inr \<lparr>title = title_of (cleaned l), assignee = a, due = d, priority = None\<rparr>"
  by (auto simp: line_task_def index_def Let_def split: option.splits)

lemma collect_Inr:
  "\<exists>ts. collect ls acc = Inr (acc @ ts) \<and>
        map title ts = map (\<lambda>l. title_of (cleaned l)) (filter is_action ls)"
proof (induction ls arbitrary: acc)
  case Nil
  show ?case by simp
next
  case (Cons l ls)
  show ?case
  proof (cases "is_action l")
    case True
    obtain a d where t: "line_task l = Inr \<lparr>title = title_of (cleaned l), assignee = a, due = d, priority = None\<rparr>"
      using line_task_Inr by blast
    from Cons [of "acc @ [\<lparr>title = title_of (cleaned l), assignee = a, due = d, priority = None\<rparr>]"]
    obtain ts where "collect ls (acc @ [\<lparr>title = title_of (cleaned l), assignee = a, due = d, priority = None\<rparr>]) =
        Inr ((acc @ [\<lparr>title = title_of (cleaned l), assignee = a, due = d, priority = None\<rparr>]) @ ts)"
      and "map title ts = map (\<lambda>l. title_of (cleaned l)) (filter is_action ls)" by blast
    with True t show ?thesis
      by (intro exI [of _ "\<lparr>title = title_of (cleaned l), assignee = a, due = d, priority = None\<rparr> # ts"]) simp
  next
    case False
    with Cons [of acc] show ?thesis by simp
  qed
qed

lemma mockExtract_Inr:
  "\<exists>ts. mockExtract t =
          Inr \<lparr>tasks = (if ts = [] then [fallback] else ts),
               followUp = tidy (follow_template (if ts = [] then [fallback] else ts))\<rparr> \<and>
        map title ts = map (\<lambda>l. title_of (cleaned l)) (filter is_action (lines_of t))"
proof -
  from collect_Inr [of "lines_of t" "[]"] obtain ts where
    "collect (lines_of t) [] = Inr ts"
    "map title ts = map (\<lambda>l. title_of (cleaned l)) (filter is_action (lines_of t))"
    by auto
  then show ?thesis
    by (intro exI [of _ ts]) (simp add: mockExtract_def Let_def)
qed


subsection \<open>The bullet pattern\<close>

lemma many_prev_Some:
  "(p', s') \<in> set (many ic P n (Some c) s) \<Longrightarrow> p' \<noteq> None"
  by (induction s arbitrary: n c) (auto split: if_splits)

lemma ms_bullet_later: "p \<noteq> None \<Longrightarrow> ms False rx_bullet ([], p, s) = []"
  by (cases p) (simp_all add: rx_bullet_def)

lemma replace_bullet_later:
  "p \<noteq> None \<Longrightarrow> replace_all False rx_bullet rep p s = s"
  by (induction s arbitrary: p) (simp_all add: replace_all_Nil replace_all_Cons ms_bullet_later)

lemma exec_bullet_later: "p \<noteq> None \<Longrightarrow> exec False rx_bullet p s = None"
  by (induction s arbitrary: p) (simp_all add: ms_bullet_later)

lemma ms_bullet_start:
  "ms False rx_bullet ([], None, c # cs) =
     (if isBullet c then map (\<lambda>(p', s'). ([], p', s')) (many False isSpace 0 (Some c) cs) else [])"
  by (simp add: rx_bullet_def)

lemma many0_head:
  "\<exists>p' rest. many False isSpace 0 (Some c) cs = (p', dropWhile isSpace cs) # rest \<and> p' \<noteq> None"
proof -
  from many_hd [of 0 False isSpace cs "Some c"] obtain p' rest where
    m: "many False isSpace 0 (Some c) cs = (p', dropWhile isSpace cs) # rest" by auto
  then have "(p', dropWhile isSpace cs) \<in> set (many False isSpace 0 (Some c) cs)" by simp
  then have "p' \<noteq> None" by (rule many_prev_Some)
  with m show ?thesis by blast
qed

lemma cleaned_Nil [simp]: "cleaned [] = []"
  by (simp add: cleaned_def replace_all_Nil rx_bullet_def)

lemma cleaned_Cons:
  "cleaned (c # cs) = (if isBullet c then dropWhile isSpace cs else c # cs)"
proof (cases "isBullet c")
  case True
  from many0_head [of c cs] obtain p' rest where
    m: "many False isSpace 0 (Some c) cs = (p', dropWhile isSpace cs) # rest" and p': "p' \<noteq> None"
    by blast
  have "length (dropWhile isSpace cs) < Suc (length cs)"
    by (simp add: length_dropWhile_le less_Suc_eq_le)
  then show ?thesis
    unfolding cleaned_def
    by (subst replace_all_Cons) (simp add: ms_bullet_start True m replace_bullet_later [OF p'])
next
  case False
  then show ?thesis
    unfolding cleaned_def
    by (subst replace_all_Cons) (simp add: ms_bullet_start replace_bullet_later)
qed

lemma test_bullet: "rx_test False rx_bullet s = (s \<noteq> [] \<and> isBullet (hd s))"
proof (cases s)
  case Nil
  then show ?thesis by (simp add: rx_test_def str_match_def rx_bullet_def)
next
  case (Cons c cs)
  from many0_head [of c cs] obtain p' rest where
    m: "many False isSpace 0 (Some c) cs = (p', dropWhile isSpace cs) # rest" by blast
  show ?thesis
    by (simp add: Cons rx_test_def str_match_def ms_bullet_start m exec_bullet_later)
qed

subsection \<open>Lines\<close>

lemma split_nl_single: "0xA \<notin> set s \<Longrightarrow> split_nl s = [s]"
  by (induction s) auto

lemma trim_fix:
  assumes "s \<noteq> []" "\<not> isSpace (hd s)" "\<not> isSpace (last s)"
  shows "trim s = s"
proof -
  from assms have "dropWhile isSpace s = s" by (cases s) auto
  moreover from assms have "dropWhile isSpace (rev s) = rev s"
    by (cases "rev s") (auto simp: last_rev [symmetric] simp del: last_rev)
  ultimately show ?thesis by (simp add: trim_def)
qed

subsection \<open>A normalised ending survives tidy\<close>

lemma dropWhile_append_keep:
  assumes "y \<noteq> []" "\<not> P (hd y)"
  shows "dropWhile P (x @ y) = (if \<forall>e\<in>set x. P e then y else dropWhile P x @ y)"
proof (cases "\<forall>e\<in>set x. P e")
  case True
  with assms show ?thesis by (cases y) (simp_all add: dropWhile_append2)
next
  case False
  then show ?thesis by (auto simp: dropWhile_append1)
qed

lemma unspace_suffix:
  assumes y: "y \<noteq> []" "\<not> isSpace (hd y)"
    and cl: "successively (\<lambda>a b. \<not> (isSpace a \<and> isPunct b)) y"
  shows "\<exists>z. unspace (x @ y) = z @ y"
proof (induction "length x" arbitrary: x rule: less_induct)
  case less
  show ?case
  proof (cases x)
    case Nil
    with cl show ?thesis by (simp add: unspace_fix)
  next
    case c: (Cons c cs)
    have lt: "length cs < length x" using c by simp
    from less [OF lt] obtain z1 where z1: "unspace (cs @ y) = z1 @ y" by blast
    show ?thesis
    proof (cases "dropWhile isSpace (cs @ y)")
      case Nil
      then show ?thesis by (simp add: c unspace_Cons z1)
    next
      case d: (Cons q rest)
      show ?thesis
      proof (cases "isSpace c \<and> isPunct q")
        case False
        then show ?thesis by (auto simp: c unspace_Cons d z1)
      next
        case True
        then have step: "unspace (x @ y) = q # unspace rest"
          by (simp add: c unspace_Cons d)
        show ?thesis
        proof (cases "\<forall>e\<in>set cs. isSpace e")
          case all: True
          have "dropWhile isSpace y = y" using y by (cases y) auto
          with all d y have yy: "y = q # rest" by (simp add: dropWhile_append_keep)
          with cl have "unspace rest = rest"
            by (intro unspace_fix) (auto simp: successively_Cons)
          with step yy have "unspace (x @ y) = [] @ y" by simp
          then show ?thesis by blast
        next
          case some: False
          with d y have e: "dropWhile isSpace cs @ y = q # rest" by (simp add: dropWhile_append_keep)
          from some have "dropWhile isSpace cs \<noteq> []" by (simp add: dropWhile_eq_Nil_conv)
          with e obtain rest0 where r0: "dropWhile isSpace cs = q # rest0" "rest = rest0 @ y"
            by (cases "dropWhile isSpace cs") auto
          have "length rest0 < length x"
            using length_dropWhile_tail [OF r0(1)] c by simp
          from less [OF this] obtain z2 where "unspace (rest0 @ y) = z2 @ y" by blast
          with step r0 have "unspace (x @ y) = (q # z2) @ y" by simp
          then show ?thesis by blast
        qed
      qed
    qed
  qed
qed

lemma squeeze_suffix:
  assumes y: "y \<noteq> []" "P (hd y) \<longrightarrow> hd y = r"
    and cl: "successively (\<lambda>a b. \<not> (P a \<and> P b)) y"
  shows "\<exists>z. squeeze P r (x @ y) = z @ y"
proof (induction "length x" arbitrary: x rule: less_induct)
  case less
  show ?case
  proof (cases x)
    case Nil
    with cl show ?thesis by (simp add: squeeze_fix)
  next
    case c: (Cons c cs)
    have lt: "length cs < length x" using c by simp
    from less [OF lt] obtain z1 where z1: "squeeze P r (cs @ y) = z1 @ y" by blast
    show ?thesis
    proof (cases "P c \<and> cs @ y \<noteq> [] \<and> P (hd (cs @ y))")
      case False
      then show ?thesis by (auto simp: c squeeze_Cons z1)
    next
      case True
      then have sq: "squeeze P r (x @ y) = r # squeeze P r (dropWhile P (cs @ y))"
        by (simp add: c squeeze_Cons)
      show ?thesis
      proof (cases "\<forall>e\<in>set cs. P e")
        case all: True
        then have dw: "dropWhile P (cs @ y) = dropWhile P y" by (simp add: dropWhile_append2)
        obtain d y' where yy: "y = d # y'" using y(1) by (cases y) auto
        show ?thesis
        proof (cases "P d")
          case pd: True
          with y(2) yy have "d = r" by simp
          from cl yy pd have "y' = [] \<or> \<not> P (hd y')" by (auto simp: successively_Cons)
          then have "dropWhile P y' = y'" by (cases y') auto
          moreover from cl yy have "squeeze P r y' = y'"
            by (intro squeeze_fix) (auto simp: successively_Cons)
          ultimately show ?thesis using sq dw yy pd \<open>d = r\<close> by simp
        next
          case npd: False
          with yy have "dropWhile P y = y" by simp
          with sq dw cl show ?thesis by (simp add: squeeze_fix)
        qed
      next
        case some: False
        then have dw: "dropWhile P (cs @ y) = dropWhile P cs @ y" by (auto simp: dropWhile_append1)
        have "length (dropWhile P cs) < length x"
          using c by (simp add: length_dropWhile_le less_Suc_eq_le)
        from less [OF this] obtain z2 where "squeeze P r (dropWhile P cs @ y) = z2 @ y" by blast
        with sq dw show ?thesis by simp
      qed
    qed
  qed
qed

lemma trim_suffix:
  assumes "y \<noteq> []" "\<not> isSpace (hd y)" "\<not> isSpace (last y)"
  shows "\<exists>z. trim (x @ y) = z @ y"
proof -
  from assms obtain w where w: "dropWhile isSpace (x @ y) = w @ y"
    by (metis append_Nil dropWhile_append_keep)
  have "trim (w @ y) = w @ y" if "w \<noteq> []" "\<not> isSpace (hd w)"
    using that assms by (intro trim_fix) auto
  have "dropWhile isSpace (rev (w @ y)) = rev (w @ y)"
    using assms by (cases "rev y") (auto simp: last_rev [symmetric] simp del: last_rev)
  then show ?thesis by (simp add: trim_def w del: rev_append)
qed

lemma tidy_suffix:
  assumes "y \<noteq> []" "\<not> isSpace (hd y)" "\<not> isSpace (last y)" "normalised y"
  shows "\<exists>z. tidy (x @ y) = z @ y"
proof -
  from assms have n: "successively (\<lambda>a b. \<not> (isSpace a \<and> isPunct b)) y"
    "successively (\<lambda>a b. \<not> (isPeriod a \<and> isPeriod b)) y"
    "successively (\<lambda>a b. \<not> (isSpace a \<and> isSpace b)) y"
    by (simp_all add: normalised_def)
  from unspace_suffix [OF assms(1,2) n(1)] obtain z1 where "unspace (x @ y) = z1 @ y" by blast
  moreover have "isPeriod (hd y) \<longrightarrow> hd y = 0x2E" by (simp add: isPeriod_def)
  from squeeze_suffix [OF assms(1) this n(2), of z1]
  obtain z2 where "squeeze isPeriod 0x2E (z1 @ y) = z2 @ y" by blast
  moreover have "isSpace (hd y) \<longrightarrow> hd y = 0x20" using assms(2) by simp
  from squeeze_suffix [OF assms(1) this n(3), of z2]
  obtain z3 where "squeeze isSpace 0x20 (z2 @ y) = z3 @ y" by blast
  moreover from trim_suffix [OF assms(1-3)] obtain z4 where "trim (z3 @ y) = z4 @ y" by blast
  ultimately show ?thesis by (simp add: tidy_steps)
qed

subsection \<open>A normalised middle survives tidy\<close>

lemma squeeze_dup:
  "squeeze isPeriod 0x2E (u @ 0x2E # 0x2E # w) = squeeze isPeriod 0x2E (u @ 0x2E # w)"
proof (induction "length u" arbitrary: u rule: less_induct)
  case less
  show ?case
  proof (cases u)
    case Nil
    show ?thesis
    proof (cases "w \<noteq> [] \<and> isPeriod (hd w)")
      case True
      then show ?thesis by (simp add: Nil squeeze_Cons isPeriod_def)
    next
      case False
      then have "dropWhile isPeriod w = w" by (cases w) auto
      with False show ?thesis by (auto simp: Nil squeeze_Cons isPeriod_def)
    qed
  next
    case (Cons c cs)
    have lt: "length cs < length u" using Cons by simp
    show ?thesis
    proof (cases "isPeriod c \<and> isPeriod (hd (cs @ 0x2E # 0x2E # w))")
      case False
      moreover have "hd (cs @ 0x2E # 0x2E # w) = hd (cs @ 0x2E # w)" by (cases cs) auto
      ultimately show ?thesis using less [OF lt] by (auto simp: Cons squeeze_Cons)
    next
      case True
      moreover have h: "hd (cs @ 0x2E # 0x2E # w) = hd (cs @ 0x2E # w)" by (cases cs) auto
      ultimately have l: "squeeze isPeriod 0x2E (u @ 0x2E # 0x2E # w) =
          0x2E # squeeze isPeriod 0x2E (dropWhile isPeriod (cs @ 0x2E # 0x2E # w))"
        and r: "squeeze isPeriod 0x2E (u @ 0x2E # w) =
          0x2E # squeeze isPeriod 0x2E (dropWhile isPeriod (cs @ 0x2E # w))"
        by (simp_all add: Cons squeeze_Cons)
      show ?thesis
      proof (cases "\<forall>e\<in>set cs. isPeriod e")
        case True
        then have "dropWhile isPeriod (cs @ 0x2E # 0x2E # w) = dropWhile isPeriod w"
          "dropWhile isPeriod (cs @ 0x2E # w) = dropWhile isPeriod w"
          by (simp_all add: dropWhile_append2 isPeriod_def)
        with l r show ?thesis by simp
      next
        case False
        then have "dropWhile isPeriod (cs @ 0x2E # 0x2E # w) = dropWhile isPeriod cs @ 0x2E # 0x2E # w"
          "dropWhile isPeriod (cs @ 0x2E # w) = dropWhile isPeriod cs @ 0x2E # w"
          by (auto simp: dropWhile_append1)
        moreover have "length (dropWhile isPeriod cs) < length u"
          using Cons by (simp add: length_dropWhile_le less_Suc_eq_le)
        ultimately show ?thesis using l r less by simp
      qed
    qed
  qed
qed

lemma tidy_keeps_middle:
  assumes J: "J \<noteq> []" "normalised J" "\<not> isSpace (hd J)" "\<not> isSpace (last J)"
    and y: "normalised (0x2E # y')" "y' \<noteq> []" "\<not> isSpace (last y')"
  shows "\<exists>u v. tidy (A @ J @ 0x2E # y') = u @ J @ v"
proof -
  let ?y = "0x2E # y'"
  let ?R1 = "\<lambda>a b. \<not> (isSpace a \<and> isPunct b)"
  let ?R2 = "\<lambda>a b. \<not> (isPeriod a \<and> isPeriod b)"
  let ?R3 = "\<lambda>a b. \<not> (isSpace a \<and> isSpace b)"
  from J(2) have nJ: "successively ?R1 J" "successively ?R2 J" "successively ?R3 J"
    by (simp_all add: normalised_def)
  from y(1) have ny: "successively ?R1 ?y" "successively ?R2 ?y" "successively ?R3 ?y"
    by (simp_all add: normalised_def)
  from ny y(2) have ny': "successively ?R2 y'" "successively ?R3 y'" "\<not> isPeriod (hd y')"
    by (auto simp: successively_Cons isPeriod_def)
  have hdJ: "hd (J @ w) = hd J" "J @ w \<noteq> []" for w using J(1) by simp_all
  \<comment> \<open>first pass\<close>
  have "successively ?R1 (J @ ?y)"
    using nJ(1) ny(1) J by (simp add: successively_append_iff)
  from unspace_suffix [OF hdJ(2) _ this, of A] J(3)
  obtain z1 where z1: "unspace (A @ J @ ?y) = z1 @ J @ ?y" by (auto simp: hdJ)
  \<comment> \<open>second pass\<close>
  have per: "isPeriod (hd (J @ w)) \<longrightarrow> hd (J @ w) = 0x2E" for w by (simp add: isPeriod_def)
  have "\<exists>z2 W. squeeze isPeriod 0x2E (z1 @ J @ ?y) = z2 @ J @ W \<and> W \<noteq> [] \<and>
      successively ?R3 W \<and> last W = last y'"
  proof (cases "isPeriod (last J)")
    case True
    with J(1) obtain J0 where J0: "J = J0 @ [0x2E]"
      by (metis append_butlast_last_id isPeriod_def)
    have "squeeze isPeriod 0x2E (z1 @ J @ ?y) = squeeze isPeriod 0x2E ((z1 @ J0) @ 0x2E # 0x2E # y')"
      by (simp add: J0)
    also have "\<dots> = squeeze isPeriod 0x2E ((z1 @ J0) @ 0x2E # y')" by (rule squeeze_dup)
    also have "\<dots> = squeeze isPeriod 0x2E (z1 @ J @ y')" by (simp add: J0)
    finally have e: "squeeze isPeriod 0x2E (z1 @ J @ ?y) = squeeze isPeriod 0x2E (z1 @ J @ y')" .
    have "successively ?R2 (J @ y')"
      using nJ(2) ny' J(1) y(2) by (simp add: successively_append_iff)
    from squeeze_suffix [OF hdJ(2) per this, of z1]
    obtain z2 where "squeeze isPeriod 0x2E (z1 @ J @ y') = z2 @ J @ y'" by blast
    with e ny' y(2) show ?thesis by auto
  next
    case False
    then have "successively ?R2 (J @ ?y)"
      using nJ(2) ny(2) J(1) by (simp add: successively_append_iff)
    from squeeze_suffix [OF hdJ(2) per this, of z1]
    obtain z2 where "squeeze isPeriod 0x2E (z1 @ J @ ?y) = z2 @ J @ ?y" by blast
    with ny(3) y(2) show ?thesis by (intro exI [of _ z2] exI [of _ ?y]) simp
  qed
  then obtain z2 W where z2: "squeeze isPeriod 0x2E (z1 @ J @ ?y) = z2 @ J @ W"
    and W: "W \<noteq> []" "successively ?R3 W" "last W = last y'" by blast
  \<comment> \<open>third pass\<close>
  have "successively ?R3 (J @ W)"
    using nJ(3) W J by (simp add: successively_append_iff)
  moreover have "isSpace (hd (J @ W)) \<longrightarrow> hd (J @ W) = 0x20" using J(3) by (simp add: hdJ)
  ultimately obtain z3 where z3: "squeeze isSpace 0x20 (z2 @ J @ W) = z3 @ J @ W"
    using squeeze_suffix [OF hdJ(2), of isSpace W "0x20" z2] by blast
  \<comment> \<open>trim\<close>
  have "\<not> isSpace (hd (J @ W))" "\<not> isSpace (last (J @ W))"
    using J(3) W y(3) by (simp_all add: hdJ)
  from trim_suffix [OF hdJ(2) this, of z3]
  obtain z4 where "trim (z3 @ J @ W) = z4 @ J @ W" by blast
  with z1 z2 z3 show ?thesis by (auto simp: tidy_steps)
qed

lemma trim_ends:
  assumes "trim s = s" "s \<noteq> []"
  shows "\<not> isSpace (hd s)" "\<not> isSpace (last s)"
proof -
  from dropWhile_trim [of s] assms have "dropWhile isSpace s = s" by simp
  with assms(2) show "\<not> isSpace (hd s)" by (metis hd_dropWhile)
  have "rev (trim s) = dropWhile isSpace (rev (dropWhile isSpace s))" by (simp add: trim_def)
  with assms have r: "rev s = dropWhile isSpace (rev (dropWhile isSpace s))" by simp
  moreover from assms(2) have "rev s \<noteq> []" by simp
  ultimately have "\<not> isSpace (hd (rev s))" by (metis hd_dropWhile)
  with assms(2) show "\<not> isSpace (last s)" by (simp add: hd_rev)
qed

lemma tidy_fixed_iff: "tidy s = s \<longleftrightarrow> normalised s \<and> trim s = s"
proof
  assume "tidy s = s"
  then show "normalised s \<and> trim s = s"
    using tidy_no_space_punct [of s] tidy_no_periods [of s] tidy_no_spaces [of s] trim_tidy [of s]
    by (simp add: normalised_def)
next
  assume "normalised s \<and> trim s = s"
  then show "tidy s = s" by (intro tidy_fix) (simp_all add: normalised_def)
qed

subsection \<open>Evaluation\<close>

lemma isSpace_fast:
  "isSpace c =
     (if c < 0x21 then c = 0x20 \<or> c = 0x9 \<or> c = 0xA \<or> c = 0xB \<or> c = 0xC \<or> c = 0xD
      else if c < 0x1680 then c = 0xA0
      else c \<in> {0x1680, 0x2028, 0x2029, 0x202F, 0x205F, 0x3000, 0xFEFF} \<or> (0x2000 \<le> c \<and> c \<le> 0x200A))"
  unfolding isSpace_def by (auto simp: word_less_nat_alt word_le_nat_alt)

lemmas cls_eval = isSpace_fast isUpper_def isLower_def isDigit_def isLetter_def isWord_def isPunct_def
  isPeriod_def isBullet_def isDueChar_def isAny_def
lemmas rx_eval = js_def cls_eval cls_match_def chr_match_def upper_def lower_def at_boundary_def
  str_match_def rx_test_def index_def rx_bullet_def rx_keyword_def rx_assignee_def rx_capword_def rx_due_def
  rx_json_def
lemmas tidy_eval = js_def tidy_def rx_space_punct_def rx_periods_def rx_spaces_def replace_all_Nil
  replace_all_Cons dollar1_def trim_def cls_match_def isSpace_fast isPunct_def isPeriod_def

lemma lines_of_single:
  assumes "0xA \<notin> set s" "s \<noteq> []" "\<not> isSpace (hd s)" "\<not> isSpace (last s)"
  shows "lines_of s = [s]"
  using assms by (simp add: lines_of_def split_nl_single trim_fix)

lemma lines_of_first:
  assumes "0xA \<notin> set a" "a \<noteq> []" "\<not> isSpace (hd a)" "\<not> isSpace (last a)"
  shows "lines_of (a @ 0xA # b) = a # lines_of b"
proof -
  have "split_nl (a @ 0xA # b) = a # split_nl b" using assms(1)
    by (induction a) auto
  with assms show ?thesis by (simp add: lines_of_def trim_fix)
qed

lemma lines_of_three:
  assumes "0xA \<notin> set a \<and> a \<noteq> [] \<and> \<not> isSpace (hd a) \<and> \<not> isSpace (last a)"
    and "0xA \<notin> set b \<and> b \<noteq> [] \<and> \<not> isSpace (hd b) \<and> \<not> isSpace (last b)"
    and "0xA \<notin> set c \<and> c \<noteq> [] \<and> \<not> isSpace (hd c) \<and> \<not> isSpace (last c)"
  shows "lines_of (a @ 0xA # b @ 0xA # c) = [a, b, c]"
  using assms by (simp add: lines_of_first lines_of_single)

lemma mockExtract_action_line:
  assumes "lines_of s = [s]" "is_action s" "line_task s = Inr t"
  shows "mockExtract s = Inr \<lparr>tasks = [t], followUp = tidy (follow_template [t])\<rparr>"
  using assms by (simp add: mockExtract_def Let_def)

subsection \<open>The JSON block pattern\<close>

lemma block_ends_Nil: "block_ends p [] = []"
  by (simp add: block_ends_def)

lemma block_ends_Cons:
  "block_ends p (d # ds) = block_ends (Some d) ds @ (if d = 0x7D then [([], Some d, ds)] else [])"
  by (simp add: block_ends_def isAny_def chr_match_def)

lemma block_ends_none: "0x7D \<notin> set cs \<Longrightarrow> block_ends p cs = []"
  by (induction cs arbitrary: p) (simp_all add: block_ends_Nil block_ends_Cons)

lemma block_ends_last:
  "0x7D \<in> set cs \<Longrightarrow>
   \<exists>more. block_ends p cs = ([], Some 0x7D, rev (takeWhile (\<lambda>c. c \<noteq> 0x7D) (rev cs))) # more"
proof (induction cs arbitrary: p)
  case Nil
  then show ?case by simp
next
  case (Cons d ds)
  show ?case
  proof (cases "0x7D \<in> set ds")
    case True
    from Cons.IH [OF True, of "Some d"] obtain more where
      "block_ends (Some d) ds = ([], Some 0x7D, rev (takeWhile (\<lambda>c. c \<noteq> 0x7D) (rev ds))) # more"
      by blast
    moreover from True have "takeWhile (\<lambda>c. c \<noteq> 0x7D) (rev ds @ [d]) = takeWhile (\<lambda>c. c \<noteq> 0x7D) (rev ds)"
      by (intro takeWhile_append1 [of "0x7D"]) auto
    ultimately show ?thesis by (simp add: block_ends_Cons)
  next
    case False
    with Cons.prems have d: "d = 0x7D" by simp
    from False have "takeWhile (\<lambda>c. c \<noteq> 0x7D) (rev ds @ [d]) = rev ds @ takeWhile (\<lambda>c. c \<noteq> 0x7D) [d]"
      by (intro takeWhile_append2) auto
    with d block_ends_none [OF False, of "Some d"] show ?thesis
      by (simp add: block_ends_Cons)
  qed
qed

lemma ms_json:
  "ms False rx_json ([], p, c # cs) = (if c = 0x7B then block_ends (Some c) cs else [])"
  by (simp add: rx_json_def js_def chr_match_def block_ends_def del: many.simps)

lemma ms_json_Nil: "ms False rx_json ([], p, []) = []"
  by (simp add: rx_json_def js_def)

lemma brace_block_none: "0x7D \<notin> set s \<Longrightarrow> brace_block s = None"
proof -
  assume a: "0x7D \<notin> set s"
  have "set (tl (dropWhile (\<lambda>c. c \<noteq> 0x7B) s)) \<subseteq> set s"
    by (metis list.set_sel(2) set_dropWhileD subsetI tl_Nil)
  with a show ?thesis by (auto simp: brace_block_def Let_def)
qed

lemma cut_after_last:
  "take (length t - length (takeWhile Q (rev t))) t = rev (dropWhile Q (rev t))"
proof -
  have "t = rev (dropWhile Q (rev t)) @ rev (takeWhile Q (rev t))"
    by (metis rev_append rev_rev_ident takeWhile_dropWhile_id)
  then have "take (length (rev (dropWhile Q (rev t)))) t = rev (dropWhile Q (rev t))"
    by (metis append_eq_conv_conj)
  moreover have "length (rev (dropWhile Q (rev t))) = length t - length (takeWhile Q (rev t))"
    by (metis add_diff_cancel_left' length_append length_rev takeWhile_dropWhile_id add.commute)
  ultimately show ?thesis by simp
qed

lemma exec_json:
  "exec False rx_json p s =
     (case brace_block s of None \<Rightarrow> None | Some m \<Rightarrow> Some \<lparr>whole = m, groups = []\<rparr>)"
proof (induction s arbitrary: p)
  case Nil
  show ?case by (simp add: ms_json_Nil brace_block_def)
next
  case (Cons c cs)
  show ?case
  proof (cases "c = 0x7B")
    case False
    then have "brace_block (c # cs) = brace_block cs" by (simp add: brace_block_def)
    with False Cons show ?thesis by (simp add: ms_json)
  next
    case lb: True
    show ?thesis
    proof (cases "0x7D \<in> set cs")
      case False
      then have "brace_block cs = None" by (rule brace_block_none)
      moreover from False lb have "brace_block (c # cs) = None" by (simp add: brace_block_def)
      ultimately show ?thesis
        using lb Cons [of "Some c"] block_ends_none [OF False, of "Some c"]
        by (simp add: ms_json)
    next
      case True
      from block_ends_last [OF True, of "Some c"] obtain more where
        m: "block_ends (Some c) cs = ([], Some 0x7D, rev (takeWhile (\<lambda>c. c \<noteq> 0x7D) (rev cs))) # more"
        by blast
      from True have tw: "takeWhile (\<lambda>c. c \<noteq> 0x7D) (rev (c # cs)) = takeWhile (\<lambda>c. c \<noteq> 0x7D) (rev cs)"
        by (simp add: takeWhile_append1 [of "0x7D"])
      have "take (length (c # cs) - length (rev (takeWhile (\<lambda>c. c \<noteq> 0x7D) (rev cs)))) (c # cs) =
          rev (dropWhile (\<lambda>c. c \<noteq> 0x7D) (rev (c # cs)))"
        using cut_after_last [of "c # cs" "\<lambda>c. c \<noteq> 0x7D"] by (simp only: tw length_rev)
      moreover from True lb have "brace_block (c # cs) = Some (rev (dropWhile (\<lambda>c. c \<noteq> 0x7D) (rev (c # cs))))"
        by (simp add: brace_block_def)
      ultimately show ?thesis
        using lb m by (simp add: ms_json)
    qed
  qed
qed

lemma match_json: "map_option whole (str_match False rx_json s) = brace_block s"
  by (simp add: str_match_def exec_json split: option.split)


section \<open>The model-backed extractor\<close>



lemma try_parse_gives: "(\<exists>r. try_parse parse x = Inr r) = gives_result parse x"
  by (auto simp: try_parse_def gives_result_def from_parsed_def get_prop_def nullish_def
      split: option.splits json.splits)

lemma try_parse_not_gives: "\<not> gives_result parse x \<Longrightarrow> \<exists>e. try_parse parse x = Inl e"
  using try_parse_gives [of parse x] by (cases "try_parse parse x") auto

lemma tidy_Nil: "tidy [] = []"
  by (simp add: tidy_steps trim_def)

section \<open>The follow-up message\<close>

lemma successively_sublist:
  "successively R ys \<Longrightarrow> sublist xs ys \<Longrightarrow> successively R xs"
  by (auto simp: sublist_def successively_append_iff)

lemma closing_normalised:
  "normalised (js ''. Please confirm owners and timelines.'')"
  by (simp add: normalised_def js_def isSpace_fast isPunct_def isPeriod_def)

lemma tidy_follow_template:
  "\<exists>z. tidy (follow_template ts) = z @ js ''. Please confirm owners and timelines.''"
proof -
  have "js ''. Please confirm owners and timelines.'' \<noteq> []"
    "\<not> isSpace (hd (js ''. Please confirm owners and timelines.''))"
    "\<not> isSpace (last (js ''. Please confirm owners and timelines.''))"
    by (simp_all add: js_def isSpace_fast)
  from tidy_suffix [OF this closing_normalised,
      of "js ''Thanks everyone for the meeting. Next actions: '' @ join (js ''; '') (map title ts)"]
  show ?thesis by (simp add: follow_template_def)
qed

lemma closing_tail_normalised: "normalised (0x2E # js '' Please confirm owners and timelines.'')"
  using closing_normalised by (simp add: js_def)

lemma followUp_keeps_titles:
  assumes "tidy (join (js ''; '') (map title ts)) = join (js ''; '') (map title ts)"
  shows "sublist (join (js ''; '') (map title ts)) (tidy (follow_template ts))"
proof (cases "join (js ''; '') (map title ts) = []")
  case True
  then show ?thesis by simp
next
  case False
  let ?J = "join (js ''; '') (map title ts)"
  from assms have n: "normalised ?J" "trim ?J = ?J" by (simp_all add: tidy_fixed_iff)
  have "js '' Please confirm owners and timelines.'' \<noteq> []"
    "\<not> isSpace (last (js '' Please confirm owners and timelines.''))"
    by (simp_all add: js_def isSpace_fast)
  from tidy_keeps_middle [OF False n(1) trim_ends [OF n(2) False] closing_tail_normalised this,
      of "js ''Thanks everyone for the meeting. Next actions: ''"]
  show ?thesis by (auto simp: follow_template_def sublist_def js_def)
qed

subsection \<open>What tidy leaves alone\<close>

lemma filter_dropWhile_other:
  "(\<And>c. Q c \<Longrightarrow> \<not> P c) \<Longrightarrow> filter Q (dropWhile P s) = filter Q s"
  by (induction s) auto

lemma filter_unspace:
  assumes "\<And>c. Q c \<Longrightarrow> \<not> isSpace c"
  shows "filter Q (unspace s) = filter Q s"
proof (induction "length s" arbitrary: s rule: less_induct)
  case less
  show ?case
  proof (cases s)
    case Nil
    then show ?thesis by simp
  next
    case c: (Cons c cs)
    have lt: "length cs < length s" using c by simp
    show ?thesis
    proof (cases "dropWhile isSpace cs")
      case Nil
      then show ?thesis using less [OF lt] by (simp add: c unspace_Cons)
    next
      case (Cons q rest)
      then have "length rest < length s"
        using length_dropWhile_tail [of isSpace cs q rest] c by simp
      note r = less [OF this]
      have "filter Q cs = filter Q (q # rest)"
        using filter_dropWhile_other [of Q isSpace cs] assms Cons by simp
      with r less [OF lt] show ?thesis using assms by (auto simp: c unspace_Cons Cons)
    qed
  qed
qed

lemma filter_squeeze:
  assumes "\<And>c. Q c \<Longrightarrow> \<not> P c" "\<not> Q r"
  shows "filter Q (squeeze P r s) = filter Q s"
proof (induction "length s" arbitrary: s rule: less_induct)
  case less
  show ?case
  proof (cases s)
    case Nil
    then show ?thesis by simp
  next
    case (Cons c cs)
    have lt: "length cs < length s" using Cons by simp
    have "length (dropWhile P cs) < length s"
      using Cons by (simp add: length_dropWhile_le less_Suc_eq_le)
    note d = less [OF this]
    have "filter Q (dropWhile P cs) = filter Q cs"
      using assms(1) by (rule filter_dropWhile_other)
    with d less [OF lt] show ?thesis using assms by (auto simp: Cons squeeze_Cons)
  qed
qed

lemma filter_trim:
  assumes "\<And>c. Q c \<Longrightarrow> \<not> isSpace c"
  shows "filter Q (trim s) = filter Q s"
  using assms by (simp add: trim_def filter_dropWhile_other rev_filter [symmetric])

lemma filter_tidy:
  assumes "\<And>c. Q c \<Longrightarrow> \<not> isSpace c \<and> \<not> isPeriod c"
  shows "filter Q (tidy s) = filter Q s"
proof -
  have "isPeriod 0x2E" "isSpace 0x20" by (simp_all add: isPeriod_def isSpace_fast)
  with assms have "\<not> Q 0x2E" "\<not> Q 0x20" by blast+
  with assms show ?thesis
    by (simp add: tidy_steps filter_trim filter_squeeze filter_unspace)
qed

lemma last_occurrence_unique:
  assumes "x @ c # y = x' @ c # y'" "c \<notin> set y" "c \<notin> set y'"
  shows "y = y'"
proof -
  have "takeWhile (\<lambda>e. e \<noteq> c) (rev (x @ c # y)) = rev y"
    using assms(2) by (auto simp: takeWhile_tail)
  moreover have "takeWhile (\<lambda>e. e \<noteq> c) (rev (x' @ c # y')) = rev y'"
    using assms(3) by (auto simp: takeWhile_tail)
  ultimately show ?thesis using assms(1) by simp
qed

lemma space_then_punct:
  assumes "successively (\<lambda>a b. \<not> (isSpace a \<and> isPunct b)) (w @ [p])" "w \<noteq> []"
    "isSpace (hd w)" "\<forall>c\<in>set w. isSpace c \<or> isPeriod c" "isPunct p"
  shows False
  using assms
proof (induction w)
  case Nil
  then show ?case by simp
next
  case (Cons c w)
  show ?case
  proof (cases w)
    case Nil
    with Cons.prems show ?thesis by (simp add: successively_Cons)
  next
    case d: (Cons d w')
    with Cons.prems have "isSpace d \<or> isPeriod d" by simp
    moreover from Cons.prems d have "\<not> isPunct d" by (simp add: successively_Cons)
    ultimately have "isSpace d" using isPeriod_punct by blast
    with Cons d show ?thesis by (simp add: successively_Cons)
  qed
qed

lemma ending_space_lost:
  assumes A: "0x3B \<notin> set A" and S: "0x3B \<notin> set S'"
    and suf: "tidy (A @ K @ js ''; '' @ 0x2E # S') = z @ 0x2E # S'"
  shows "\<not> sublist (K @ js ''; '') (tidy (A @ K @ js ''; '' @ 0x2E # S'))"
proof
  let ?S = "0x2E # S'"
  let ?T = "A @ K @ js ''; '' @ ?S"
  let ?R = "\<lambda>a b. \<not> (isSpace a \<and> isPunct b)"
  define Q where "Q = (\<lambda>c. \<not> isSpace c \<and> \<not> isPeriod c)"
  define sc where "sc = (\<lambda>c::jchar. c = 0x3B)"
  assume "sublist (K @ js ''; '') (tidy ?T)"
  then obtain a b where F: "tidy ?T = a @ K @ js ''; '' @ b" by (auto simp: sublist_def)
  have semi: "\<not> isSpace 0x3B" "\<not> isPeriod 0x3B" by (simp_all add: isSpace_fast isPeriod_def)
  have sp: "isSpace 0x20" "isPeriod 0x2E" by (simp_all add: isSpace_fast isPeriod_def)
  \<comment> \<open>no semicolon is lost or added\<close>
  have "filter sc (tidy ?T) = filter sc ?T"
    by (rule filter_tidy) (auto simp: sc_def semi)
  then have "length (filter sc (a @ K @ js ''; '' @ b)) = length (filter sc ?T)"
    by (simp add: F)
  moreover have "filter sc A = []" "filter sc ?S = []"
    using A S by (auto simp: sc_def filter_empty_conv)
  ultimately have "filter sc b = []" by simp
  then have b: "0x3B \<notin> set b" by (auto simp: sc_def filter_empty_conv)
  \<comment> \<open>what follows the last semicolon\<close>
  have "filter Q (tidy ?T) = filter Q ?T"
    by (rule filter_tidy) (simp add: Q_def)
  then have "filter Q (a @ K @ js ''; '' @ b) = filter Q ?T" by (simp only: F)
  then have "filter Q (a @ K) @ 0x3B # filter Q b = filter Q (A @ K) @ 0x3B # filter Q ?S"
    by (simp add: js_def Q_def semi sp)
  moreover have "0x3B \<notin> set (filter Q b)" "0x3B \<notin> set (filter Q ?S)" using b S by simp_all
  ultimately have Qb: "filter Q b = filter Q ?S" by (rule last_occurrence_unique)
  have "0x3B \<in> set (a @ K @ js ''; '' @ b)" by (simp add: js_def)
  then have "0x3B \<in> set (z @ 0x2E # S')" by (simp only: F [symmetric] suf)
  with S have "0x3B \<in> set z" by simp
  then obtain z0 z1 where z: "z = z0 @ 0x3B # z1" "0x3B \<notin> set z1"
    by (meson split_list_last)
  have "(a @ K) @ 0x3B # (0x20 # b) = z0 @ 0x3B # (z1 @ ?S)"
    using F suf z by (simp add: js_def)
  moreover have "0x3B \<notin> set (0x20 # b)" "0x3B \<notin> set (z1 @ ?S)" using b z S by simp_all
  ultimately have e: "0x20 # b = z1 @ ?S" by (rule last_occurrence_unique)
  then obtain z1' where z1: "z1 = 0x20 # z1'" "b = z1' @ ?S" by (cases z1) auto
  with Qb have "filter Q z1' = []" by simp
  then have "\<forall>c\<in>set z1. isSpace c \<or> isPeriod c"
    using z1 sp by (auto simp: filter_empty_conv Q_def)
  moreover have "successively ?R (z1 @ [0x2E])"
  proof -
    have "sublist (z1 @ [0x2E]) (tidy ?T)"
      unfolding suf z sublist_def by (intro exI [of _ "z0 @ [0x3B]"] exI [of _ S']) simp
    with tidy_no_space_punct [of ?T] show ?thesis by (rule successively_sublist)
  qed
  moreover have "isPunct 0x2E" by (simp add: isPunct_def js_def)
  ultimately show False using z1 sp space_then_punct [of z1 "0x2E"] by simp
qed

subsection \<open>The titles have no white space at their ends\<close>

lemma lines_of_trimmed: "l \<in> set (lines_of t) \<Longrightarrow> l \<noteq> [] \<and> trim l = l"
  by (auto simp: lines_of_def trim_idem)

lemma last_dropWhile: "dropWhile P xs \<noteq> [] \<Longrightarrow> last (dropWhile P xs) = last xs"
  by (induction xs) (auto split: if_splits)

lemma cleaned_trimmed:
  assumes "l \<noteq> []" "trim l = l"
  shows "trim (cleaned l) = cleaned l"
proof -
  from assms obtain c cs where l: "l = c # cs" by (cases l) auto
  from trim_ends [OF assms(2,1)] have e: "\<not> isSpace c" "\<not> isSpace (last l)" by (simp_all add: l)
  show ?thesis
  proof (cases "isBullet c")
    case False
    with assms show ?thesis by (simp add: l cleaned_Cons)
  next
    case True
    then have c: "cleaned l = dropWhile isSpace cs" by (simp add: l cleaned_Cons)
    show ?thesis
    proof (cases "dropWhile isSpace cs = []")
      case True
      with c show ?thesis by (simp add: trim_def)
    next
      case False
      then have "cs \<noteq> []" by auto
      with e have "\<not> isSpace (last cs)" by (simp add: l)
      with False have "\<not> isSpace (last (dropWhile isSpace cs))" by (simp add: last_dropWhile)
      moreover from False have "\<not> isSpace (hd (dropWhile isSpace cs))" by (rule hd_dropWhile)
      ultimately show ?thesis using False c by (simp add: trim_fix)
    qed
  qed
qed

lemma title_of_trimmed:
  assumes "trim c = c"
  shows "trim (title_of c) = title_of c"
proof (cases "length c > 250")
  case False
  with assms show ?thesis by (simp add: title_of_def)
next
  case True
  then have ne: "c \<noteq> []" by auto
  from trim_ends [OF assms ne] have "\<not> isSpace (hd c)" by simp
  moreover have "hd (take 247 c @ js ''...'') = hd c" using True by (cases c) auto
  moreover have "last (take 247 c @ js ''...'') = 0x2E" by (simp add: js_def)
  moreover have "take 247 c @ js ''...'' \<noteq> []" by (simp add: js_def)
  ultimately have "trim (take 247 c @ js ''...'') = take 247 c @ js ''...''"
    by (intro trim_fix) (simp_all add: isSpace_fast)
  with True show ?thesis by (simp add: title_of_def)
qed

lemma fallback_trimmed: "trim (title fallback) = title fallback"
  by (rule trim_fix; simp add: fallback_def js_def isSpace_fast)

lemma mockExtract_titles_trimmed:
  assumes "mockExtract t = Inr r"
  shows "\<forall>x\<in>set (map title (tasks r)). trim x = x"
proof -
  from mockExtract_Inr [of t] obtain ts where
    m: "mockExtract t =
          Inr \<lparr>tasks = (if ts = [] then [fallback] else ts),
               followUp = tidy (follow_template (if ts = [] then [fallback] else ts))\<rparr>"
    and ti: "map title ts = map (\<lambda>l. title_of (cleaned l)) (filter is_action (lines_of t))"
    by blast
  have "\<forall>x\<in>set (map title ts). trim x = x"
    unfolding ti using lines_of_trimmed [of _ t] by (auto intro!: title_of_trimmed cleaned_trimmed)
  moreover have "tasks r = (if ts = [] then [fallback] else ts)" using m assms by auto
  ultimately show ?thesis using fallback_trimmed by (cases "ts = []") simp_all
qed

lemma join_hd:
  assumes "\<forall>x\<in>set xs. trim x = x" "join (js ''; '') xs \<noteq> []"
  shows "\<not> isSpace (hd (join (js ''; '') xs))"
  using assms
proof (induction "js ''; ''" xs rule: join.induct)
  case 1
  then show ?case by simp
next
  case (2 x)
  then show ?case using trim_ends [of x] by simp
next
  case (3 x y ys)
  show ?case
  proof (cases "x = []")
    case True
    then show ?thesis by (simp add: js_def isSpace_fast)
  next
    case False
    with 3 show ?thesis using trim_ends [of x] by simp
  qed
qed

lemma join_last:
  assumes "\<forall>x\<in>set xs. trim x = x" "join (js ''; '') xs \<noteq> []"
    "isSpace (last (join (js ''; '') xs))"
  shows "\<exists>K. join (js ''; '') xs = K @ js ''; ''"
  using assms
proof (induction "js ''; ''" xs rule: join.induct)
  case 1
  then show ?case by simp
next
  case (2 x)
  then show ?case using trim_ends [of x] by simp
next
  case (3 x y ys)
  show ?case
  proof (cases "join (js ''; '') (y # ys) = []")
    case True
    then show ?thesis by simp
  next
    case False
    moreover from False 3 have "isSpace (last (join (js ''; '') (y # ys)))" by simp
    moreover from 3 have "\<forall>x\<in>set (y # ys). trim x = x" by simp
    ultimately obtain K where "join (js ''; '') (y # ys) = K @ js ''; ''"
      using 3(1) by blast
    then show ?thesis by (intro exI [of _ "x @ js ''; '' @ K"]) simp
  qed
qed

lemma followUp_holds_trimmed:
  assumes t: "\<forall>x\<in>set (map title ts). trim x = x"
    and s: "sublist (join (js ''; '') (map title ts)) (tidy (follow_template ts))"
  shows "trim (join (js ''; '') (map title ts)) = join (js ''; '') (map title ts)"
proof (cases "join (js ''; '') (map title ts) = []")
  case True
  then show ?thesis by (simp add: trim_def)
next
  case False
  let ?J = "join (js ''; '') (map title ts)"
  have h: "\<not> isSpace (hd ?J)" using t False by (rule join_hd)
  have "\<not> isSpace (last ?J)"
  proof
    assume "isSpace (last ?J)"
    with t False obtain K where K: "?J = K @ js ''; ''" using join_last by blast
    from tidy_follow_template [of ts] obtain z where
      "tidy (follow_template ts) = z @ js ''. Please confirm owners and timelines.''" by blast
    then have "tidy (js ''Thanks everyone for the meeting. Next actions: '' @ K @ js ''; '' @
          0x2E # js '' Please confirm owners and timelines.'') =
        z @ 0x2E # js '' Please confirm owners and timelines.''"
      unfolding follow_template_def K by (simp add: js_def)
    from ending_space_lost [OF _ _ this] s show False
      unfolding follow_template_def K by (simp add: js_def)
  qed
  with False h show ?thesis by (simp add: trim_fix)
qed

section \<open>Concrete inputs\<close>





lemma parse_42: "JSON_parse (js ''42'') = Some (JNumber (js ''42''))"
  by code_simp

lemma parse_prose: \<open>JSON_parse (js ''Sorry, {no tasks} found'') = None\<close>
  \<open>JSON_parse (js ''{no tasks}'') = None\<close>
  by code_simp+

lemma block_prose: \<open>brace_block (js ''Sorry, {no tasks} found'') = Some (js ''{no tasks}'')\<close>
  \<open>brace_block (js ''42'') = None\<close>
  by (simp_all add: brace_block_def js_def)

lemma bullet_only_line: "lines_of (js ''-'') = [js ''-'']" "is_action (js ''-'')"
  "line_task (js ''-'') = Inr \<lparr>title = [], assignee = None, due = None, priority = None\<rparr>"
    apply (rule lines_of_single; simp add: js_def isSpace_fast)
   apply (simp add: is_action_def test_bullet js_def isBullet_def)
  apply (simp add: line_task_def title_of_def cleaned_Cons rx_eval)
  done

lemma report_line:
  "lines_of (js ''- Action: Ship the report by Monday. Assigned to Priya.'') =
     [js ''- Action: Ship the report by Monday. Assigned to Priya.'']"
  "is_action (js ''- Action: Ship the report by Monday. Assigned to Priya.'')"
  "line_task (js ''- Action: Ship the report by Monday. Assigned to Priya.'') =
     Inr \<lparr>title = js ''Action: Ship the report by Monday. Assigned to Priya.'',
          assignee = Some (js ''Monday''),
          due = Some (js ''Monday. Assigned to Priya.''),
          priority = None\<rparr>"
    apply (rule lines_of_single; simp add: js_def isSpace_fast)
   apply (simp add: is_action_def test_bullet js_def isBullet_def)
  apply (simp add: line_task_def title_of_def cleaned_Cons rx_eval)
  done

lemma report_extract:
  "mockExtract (js ''- Action: Ship the report by Monday. Assigned to Priya.'') =
     Inr \<lparr>tasks = [\<lparr>title = js ''Action: Ship the report by Monday. Assigned to Priya.'',
                     assignee = Some (js ''Monday''),
                     due = Some (js ''Monday. Assigned to Priya.''),
                     priority = None\<rparr>],
          followUp = js ''Thanks everyone for the meeting. Next actions: Action: Ship the report by Monday. Assigned to Priya. Please confirm owners and timelines.''\<rparr>"
  apply (simp only: mockExtract_action_line [OF report_line])
  apply (simp add: follow_template_def tidy_eval)
  done

lemma report_fallback_word:
  "map_option groups (str_match False rx_capword (cleaned (js ''- Action: Ship the report by Monday. Assigned to Priya.''))) =
     Some [(1, js ''Action'')]"
  by (simp add: cleaned_Cons rx_eval)

lemma sample_line:
  "lines_of (js ''- Action: Integrate payments API by next Wednesday. Assigned to Ravi.'') =
     [js ''- Action: Integrate payments API by next Wednesday. Assigned to Ravi.'']"
  "is_action (js ''- Action: Integrate payments API by next Wednesday. Assigned to Ravi.'')"
  "line_task (js ''- Action: Integrate payments API by next Wednesday. Assigned to Ravi.'') =
     Inr \<lparr>title = js ''Action: Integrate payments API by next Wednesday. Assigned to Ravi.'',
          assignee = Some (js ''next''),
          due = Some (js ''next Wednesday. Assigned to Ravi.''),
          priority = None\<rparr>"
    apply (rule lines_of_single; simp add: js_def isSpace_fast)
   apply (simp add: is_action_def test_bullet js_def isBullet_def)
  apply (simp add: line_task_def title_of_def cleaned_Cons rx_eval)
  done

lemma sample_first_tier:
  "map_option groups
     (str_match True rx_assignee
       (cleaned (js ''- Action: Integrate payments API by next Wednesday. Assigned to Ravi.''))) =
     Some [(1, js ''next'')]"
  by (simp add: cleaned_Cons rx_eval)

lemma sample_extract:
  "mockExtract (js ''- Action: Integrate payments API by next Wednesday. Assigned to Ravi.'') =
     Inr \<lparr>tasks = [\<lparr>title = js ''Action: Integrate payments API by next Wednesday. Assigned to Ravi.'',
                     assignee = Some (js ''next''),
                     due = Some (js ''next Wednesday. Assigned to Ravi.''),
                     priority = None\<rparr>],
          followUp = js ''Thanks everyone for the meeting. Next actions: Action: Integrate payments API by next Wednesday. Assigned to Ravi. Please confirm owners and timelines.''\<rparr>"
  apply (simp only: mockExtract_action_line [OF sample_line])
  apply (simp add: follow_template_def tidy_eval)
  done

lemma double_space_line:
  "lines_of (js ''will  do'') = [js ''will  do'']"
  "is_action (js ''will  do'')"
  "line_task (js ''will  do'') = Inr \<lparr>title = js ''will  do'', assignee = None, due = None, priority = None\<rparr>"
    apply (rule lines_of_single; simp add: js_def isSpace_fast)
   apply (simp add: is_action_def test_bullet)
   apply (simp add: rx_eval)
  apply (simp add: line_task_def title_of_def cleaned_Cons rx_eval)
  done

lemma long_line:
  fixes a :: jchar
  assumes a: "\<not> isSpace a" "a \<noteq> 0xA" and b: "isBullet b" "\<not> isSpace b" "b \<noteq> 0xA"
    and n: "250 < n"
  shows "\<exists>r. mockExtract (b # 0x20 # replicate n a) = Inr r \<and>
             map title (tasks r) = [replicate 247 a @ js ''...'']"
proof -
  let ?s = "b # 0x20 # replicate n a"
  have "0xA \<notin> set ?s" using a b by auto
  moreover have "last ?s = a" using n by simp
  ultimately have l: "lines_of ?s = [?s]"
    using a b by (intro lines_of_single) simp_all
  have act: "is_action ?s" using b by (simp add: is_action_def test_bullet)
  have "cleaned ?s = replicate n a"
    using a b n by (simp add: cleaned_Cons space_facts)
  moreover have "take 247 (replicate n a) = replicate 247 a"
    using n by (simp add: min_def)
  ultimately have t: "title_of (cleaned ?s) = replicate 247 a @ js ''...''"
    using n by (simp add: title_of_def)
  from mockExtract_Inr [of ?s] obtain ts where
    m: "mockExtract ?s =
          Inr \<lparr>tasks = (if ts = [] then [fallback] else ts),
               followUp = tidy (follow_template (if ts = [] then [fallback] else ts))\<rparr>"
    and ti: "map title ts = map (\<lambda>l. title_of (cleaned l)) (filter is_action (lines_of ?s))"
    by blast
  from ti l act t have ts: "map title ts = [replicate 247 a @ js ''...'']" by simp
  then have "ts \<noteq> []" by auto
  with m ts show ?thesis by simp
qed

text \<open>
  A content that is JSON but no object passes the first \<open>JSON.parse\<close>: every member read
  from it is \<open>undefined\<close>, and the result is empty.
\<close>

lemma number_content:
  "callOpenAIExtract JSON_parse (js ''sk-test'')
     \<lparr>ok = True, status = 200, body = [], content = Some (js ''42'')\<rparr> =
     Inr \<lparr>tasks = JArray [], followUp = []\<rparr>"
  by (simp add: callOpenAIExtract_def try_parse_def parse_42 from_parsed_def get_prop_def
      nullish_def) (simp add: js_def tidy_def replace_all_Nil trim_def rx_space_punct_def
      rx_periods_def rx_spaces_def)


lemma sample_line_ok:
  "0xA \<notin> set (js ''- Action: Integrate payments API by next Wednesday. Assigned to Ravi.'') \<and>
   js ''- Action: Integrate payments API by next Wednesday. Assigned to Ravi.'' \<noteq> [] \<and>
   \<not> isSpace (hd (js ''- Action: Integrate payments API by next Wednesday. Assigned to Ravi.'')) \<and>
   \<not> isSpace (last (js ''- Action: Integrate payments API by next Wednesday. Assigned to Ravi.''))"
  "0xA \<notin> set (js ''- Please prepare the onboarding doc by Friday. Alice will lead.'') \<and>
   js ''- Please prepare the onboarding doc by Friday. Alice will lead.'' \<noteq> [] \<and>
   \<not> isSpace (hd (js ''- Please prepare the onboarding doc by Friday. Alice will lead.'')) \<and>
   \<not> isSpace (last (js ''- Please prepare the onboarding doc by Friday. Alice will lead.''))"
  "0xA \<notin> set (js ''We will discuss metrics next meeting. John will propose KPIs.'') \<and>
   js ''We will discuss metrics next meeting. John will propose KPIs.'' \<noteq> [] \<and>
   \<not> isSpace (hd (js ''We will discuss metrics next meeting. John will propose KPIs.'')) \<and>
   \<not> isSpace (last (js ''We will discuss metrics next meeting. John will propose KPIs.''))"
  by (simp_all add: js_def isSpace_fast)

lemma sample_lines:
  "lines_of
     (js ''- Action: Integrate payments API by next Wednesday. Assigned to Ravi.'' @ 0xA #
      js ''- Please prepare the onboarding doc by Friday. Alice will lead.'' @ 0xA #
      js ''We will discuss metrics next meeting. John will propose KPIs.'') =
   [js ''- Action: Integrate payments API by next Wednesday. Assigned to Ravi.'',
    js ''- Please prepare the onboarding doc by Friday. Alice will lead.'',
    js ''We will discuss metrics next meeting. John will propose KPIs.'']"
  by (simp only: lines_of_three [OF sample_line_ok])

lemma sample_actions:
  "is_action (js ''- Action: Integrate payments API by next Wednesday. Assigned to Ravi.'')"
  "is_action (js ''- Please prepare the onboarding doc by Friday. Alice will lead.'')"
  "is_action (js ''We will discuss metrics next meeting. John will propose KPIs.'')"
    apply (simp add: is_action_def test_bullet js_def isBullet_def)
   apply (simp add: is_action_def test_bullet js_def isBullet_def)
  apply (simp add: is_action_def test_bullet)
  apply (simp add: rx_eval)
  done

lemma sample_titles:
  "title_of (cleaned (js ''- Action: Integrate payments API by next Wednesday. Assigned to Ravi.'')) =
     js ''Action: Integrate payments API by next Wednesday. Assigned to Ravi.''"
  "title_of (cleaned (js ''- Please prepare the onboarding doc by Friday. Alice will lead.'')) =
     js ''Please prepare the onboarding doc by Friday. Alice will lead.''"
  "title_of (cleaned (js ''We will discuss metrics next meeting. John will propose KPIs.'')) =
     js ''We will discuss metrics next meeting. John will propose KPIs.''"
  by (simp_all add: title_of_def cleaned_Cons js_def isBullet_def isSpace_fast)

lemma sample_joined:
  "normalised (js ''Action: Integrate payments API by next Wednesday. Assigned to Ravi.; Please prepare the onboarding doc by Friday. Alice will lead.; We will discuss metrics next meeting. John will propose KPIs.'')"
  "trim (js ''Action: Integrate payments API by next Wednesday. Assigned to Ravi.; Please prepare the onboarding doc by Friday. Alice will lead.; We will discuss metrics next meeting. John will propose KPIs.'') =
     js ''Action: Integrate payments API by next Wednesday. Assigned to Ravi.; Please prepare the onboarding doc by Friday. Alice will lead.; We will discuss metrics next meeting. John will propose KPIs.''"
   apply (simp add: normalised_def js_def isSpace_fast isPunct_def isPeriod_def)
  apply (rule trim_fix; simp add: js_def isSpace_fast)
  done

lemma sample_join:
  "join (js ''; '')
     [js ''Action: Integrate payments API by next Wednesday. Assigned to Ravi.'',
      js ''Please prepare the onboarding doc by Friday. Alice will lead.'',
      js ''We will discuss metrics next meeting. John will propose KPIs.''] =
   js ''Action: Integrate payments API by next Wednesday. Assigned to Ravi.; Please prepare the onboarding doc by Friday. Alice will lead.; We will discuss metrics next meeting. John will propose KPIs.''"
  by (simp add: js_def)

lemma parse_null: "JSON_parse (js ''null'') = Some JNull"
  by code_simp

lemma parse_followUp_number:
  \<open>JSON_parse (js ''{"tasks":[],"followUp":5}'') =
     Some (JObject [(js ''tasks'', JArray []), (js ''followUp'', JNumber (js ''5''))])\<close>
  by code_simp

lemma block_more: \<open>brace_block (js ''null'') = None\<close>
  \<open>brace_block (js ''{"tasks":[],"followUp":5}'') = Some (js ''{"tasks":[],"followUp":5}'')\<close>
  by (simp_all add: brace_block_def js_def)

lemma gives_examples:
  \<open>\<not> gives_result JSON_parse (js ''Sorry, {no tasks} found'')\<close>
  \<open>\<not> gives_result JSON_parse (js ''{no tasks}'')\<close>
  \<open>\<not> gives_result JSON_parse (js ''null'')\<close>
  \<open>\<not> gives_result JSON_parse (js ''{"tasks":[],"followUp":5}'')\<close>
  by (simp_all add: gives_result_def parse_prose parse_null parse_followUp_number)


section \<open>The claims\<close>




text \<open>
  C2, at the input \<open>-\<close>: a line that is a bullet marker and nothing else passes the
  test of an action line, and the task pushed for it has the empty title.
\<close>

theorem bullet_only_empty_title:
  "mockExtract (js ''-'') =
     Inr \<lparr>tasks = [\<lparr>title = [], assignee = None, due = None, priority = None\<rparr>],
          followUp = js ''Thanks everyone for the meeting. Next actions:. Please confirm owners and timelines.''\<rparr>"
  apply (simp only: mockExtract_action_line [OF bullet_only_line])
  apply (simp add: follow_template_def tidy_eval)
  done

text \<open>
  C3: the text cleaner \<open>tidy\<close> is idempotent: for every string \<open>t\<close>,
  \<open>tidy (tidy t)\<close> equals \<open>tidy t\<close>.
\<close>

theorem tidy_idempotent: "tidy (tidy t) = tidy t"
  by (rule tidy_twice)

text \<open>
  C4, as amended: for the line ``- Action: Ship the report by Monday. Assigned to
  Priya.'' the task has the assignee \<open>Monday\<close>: the leftmost match of the first pattern
  is \<open>by Monday\<close>, left of \<open>Assigned to Priya\<close>.  The first pattern does win over the
  second, which alone would give the capitalised word \<open>Action\<close>.
\<close>

theorem report_assignee:
  "mockExtract (js ''- Action: Ship the report by Monday. Assigned to Priya.'') =
     Inr \<lparr>tasks = [\<lparr>title = js ''Action: Ship the report by Monday. Assigned to Priya.'',
                     assignee = Some (js ''Monday''),
                     due = Some (js ''Monday. Assigned to Priya.''),
                     priority = None\<rparr>],
          followUp = js ''Thanks everyone for the meeting. Next actions: Action: Ship the report by Monday. Assigned to Priya. Please confirm owners and timelines.''\<rparr> \<and>
   map_option groups
     (str_match False rx_capword
       (cleaned (js ''- Action: Ship the report by Monday. Assigned to Priya.''))) =
     Some [(1, js ''Action'')]"
  by (simp only: report_extract report_fallback_word)

text \<open>
  The counterexample of C4: the assignee of the one task of that line is \<open>Monday\<close>, which
  is not \<open>Priya\<close>.
\<close>

theorem report_assignee_not_Priya:
  "map_sum id (\<lambda>r. map assignee (tasks r))
     (mockExtract (js ''- Action: Ship the report by Monday. Assigned to Priya.'')) =
     Inr [Some (js ''Monday'')] \<and>
   js ''Monday'' \<noteq> js ''Priya''"
  by (simp add: report_extract) (simp add: js_def)

text \<open>
  C5, at the first line of the sample notes of \<open>pages/index.tsx\<close>: the \<open>i\<close> flag covers
  the whole first pattern, so the word after the connector \<open>by\<close> is taken although it
  begins with a lower-case letter: the assignee is \<open>next\<close>.
\<close>

theorem sample_assignee_lowercase:
  "mockExtract (js ''- Action: Integrate payments API by next Wednesday. Assigned to Ravi.'') =
     Inr \<lparr>tasks = [\<lparr>title = js ''Action: Integrate payments API by next Wednesday. Assigned to Ravi.'',
                     assignee = Some (js ''next''),
                     due = Some (js ''next Wednesday. Assigned to Ravi.''),
                     priority = None\<rparr>],
          followUp = js ''Thanks everyone for the meeting. Next actions: Action: Integrate payments API by next Wednesday. Assigned to Ravi. Please confirm owners and timelines.''\<rparr> \<and>
   map_option groups
     (str_match True rx_assignee
       (cleaned (js ''- Action: Integrate payments API by next Wednesday. Assigned to Ravi.''))) =
     Some [(1, js ''next'')] \<and>
   \<not> isUpper (hd (js ''next''))"
  by (simp only: sample_extract sample_first_tier) (simp add: js_def isUpper_def)

text \<open>
  C6: the input of one line, a bullet marker and 300 characters \<open>a\<close>, gives exactly one
  task; its title is 247 characters \<open>a\<close> and three periods, of length 250.
\<close>

theorem long_line_truncated:
  "\<exists>r. mockExtract (js ''- '' @ replicate 300 (of_char CHR ''a'')) = Inr r \<and>
        map title (tasks r) = [replicate 247 (of_char CHR ''a'') @ js ''...''] \<and>
        length (tasks r) = 1 \<and> length (title (hd (tasks r))) = 250"
proof -
  define a :: jchar where "a = of_char CHR ''a''"
  define n :: nat where "n = 300"
  have "\<not> isSpace a" "a \<noteq> 0xA"
    "isBullet (of_char CHR ''-'')" "\<not> isSpace (of_char CHR ''-'')" "of_char CHR ''-'' \<noteq> (0xA :: jchar)"
    "250 < n"
    by (simp_all add: isSpace_fast isBullet_def js_def a_def n_def)
  from long_line [OF this] obtain r where
    r: "mockExtract (of_char CHR ''-'' # 0x20 # replicate n a) = Inr r"
      "map title (tasks r) = [replicate 247 a @ js ''...'']" by auto
  from r(2) have "length (map title (tasks r)) = 1" by simp
  then have one: "length (tasks r) = 1" by simp
  with r(2) have "title (hd (tasks r)) = replicate 247 a @ js ''...''"
    by (cases "tasks r") auto
  then have "length (title (hd (tasks r))) = 250" by (simp add: js_def)
  moreover have "js ''- '' @ replicate n a = of_char CHR ''-'' # 0x20 # replicate n a"
    by (simp add: js_def)
  ultimately show ?thesis using r one unfolding a_def n_def by auto
qed

text \<open>
  C7, as amended: for every input, the follow-up message is \<open>tidy\<close> of the template that
  holds every title joined by \<open>; \<close>; it ends with ``. Please confirm owners and
  timelines.'', holds no two periods in a row and no two white-space characters in a row.
  It holds the joined titles as they are exactly when \<open>tidy\<close> would leave them unchanged,
  that is, exactly when they are normalised (no white space before a punctuation mark, no
  two periods and no two white-space characters in a row) and have no white space at
  either end.
\<close>

theorem followUp_shape:
  "\<exists>r. mockExtract t = Inr r \<and>
        followUp r = tidy (follow_template (tasks r)) \<and>
        suffix (js ''. Please confirm owners and timelines.'') (followUp r) \<and>
        \<not> sublist (js ''..'') (followUp r) \<and>
        \<not> (\<exists>a b. isSpace a \<and> isSpace b \<and> sublist [a, b] (followUp r)) \<and>
        sublist (join (js ''; '') (map title (tasks r))) (followUp r) =
          (normalised (join (js ''; '') (map title (tasks r))) \<and>
           trim (join (js ''; '') (map title (tasks r))) = join (js ''; '') (map title (tasks r)))"
proof -
  from mockExtract_Inr [of t] obtain ts where
    m: "mockExtract t =
          Inr \<lparr>tasks = (if ts = [] then [fallback] else ts),
               followUp = tidy (follow_template (if ts = [] then [fallback] else ts))\<rparr>"
    by blast
  define T where "T = (if ts = [] then [fallback] else ts)"
  define F where "F = tidy (follow_template T)"
  define J where "J = join (js ''; '') (map title T)"
  from m have tr: "\<forall>x\<in>set (map title T). trim x = x"
    using mockExtract_titles_trimmed [of t "\<lparr>tasks = T, followUp = F\<rparr>"] by (simp add: T_def F_def)
  have "suffix (js ''. Please confirm owners and timelines.'') F"
    using tidy_follow_template [of T] by (auto simp: F_def suffix_def)
  moreover have "\<not> sublist (js ''..'') F"
  proof
    assume "sublist (js ''..'') F"
    with tidy_no_periods [of "follow_template T"]
    have "successively (\<lambda>a b. \<not> (isPeriod a \<and> isPeriod b)) (js ''..'')"
      unfolding F_def by (rule successively_sublist)
    then show False by (simp add: js_def isPeriod_def)
  qed
  moreover have "\<not> (\<exists>a b. isSpace a \<and> isSpace b \<and> sublist [a, b] F)"
  proof
    assume "\<exists>a b. isSpace a \<and> isSpace b \<and> sublist [a, b] F"
    then obtain a b where ab: "isSpace a" "isSpace b" "sublist [a, b] F" by blast
    from tidy_no_spaces [of "follow_template T"] ab(3)
    have "successively (\<lambda>a b. \<not> (isSpace a \<and> isSpace b)) [a, b]"
      unfolding F_def by (rule successively_sublist)
    with ab show False by simp
  qed
  moreover have "sublist J F" if "normalised J \<and> trim J = J"
    using that unfolding J_def F_def
    by (intro followUp_keeps_titles) (simp add: tidy_fixed_iff)
  moreover have "normalised J" if "sublist J F"
    unfolding normalised_def
    using tidy_no_space_punct [of "follow_template T"] tidy_no_periods [of "follow_template T"]
      tidy_no_spaces [of "follow_template T"] that
    unfolding F_def by (intro conjI) (erule successively_sublist, assumption)+
  moreover have "trim J = J" if "sublist J F"
    using tr that unfolding J_def F_def by (rule followUp_holds_trimmed)
  ultimately have "sublist J F = (normalised J \<and> trim J = J)" by blast
  with \<open>suffix (js ''. Please confirm owners and timelines.'') F\<close> \<open>\<not> sublist (js ''..'') F\<close>
    \<open>\<not> (\<exists>a b. isSpace a \<and> isSpace b \<and> sublist [a, b] F)\<close>
  show ?thesis
    using m by (intro exI [of _ "\<lparr>tasks = T, followUp = F\<rparr>"]) (simp add: T_def F_def J_def)
qed

text \<open>
  The witness of C7: the sample notes of the page, three lines that are all action lines.
  The three titles end in a period and are joined by \<open>; \<close>; the joined titles are
  normalised and have no white space at their ends, and the follow-up message holds them.
\<close>

theorem followUp_shape_witness:
  "\<exists>r. mockExtract
          (js ''- Action: Integrate payments API by next Wednesday. Assigned to Ravi.'' @ 0xA #
           js ''- Please prepare the onboarding doc by Friday. Alice will lead.'' @ 0xA #
           js ''We will discuss metrics next meeting. John will propose KPIs.'') = Inr r \<and>
        join (js ''; '') (map title (tasks r)) =
          js ''Action: Integrate payments API by next Wednesday. Assigned to Ravi.; Please prepare the onboarding doc by Friday. Alice will lead.; We will discuss metrics next meeting. John will propose KPIs.'' \<and>
        normalised (join (js ''; '') (map title (tasks r))) \<and>
        trim (join (js ''; '') (map title (tasks r))) = join (js ''; '') (map title (tasks r)) \<and>
        sublist (join (js ''; '') (map title (tasks r))) (followUp r) \<and>
        suffix (js ''. Please confirm owners and timelines.'') (followUp r)"
proof -
  let ?t = "js ''- Action: Integrate payments API by next Wednesday. Assigned to Ravi.'' @ 0xA #
           js ''- Please prepare the onboarding doc by Friday. Alice will lead.'' @ 0xA #
           js ''We will discuss metrics next meeting. John will propose KPIs.''"
  from followUp_shape [of ?t] obtain r where
    r: "mockExtract ?t = Inr r"
    and e: "suffix (js ''. Please confirm owners and timelines.'') (followUp r)"
    and s: "sublist (join (js ''; '') (map title (tasks r))) (followUp r) =
          (normalised (join (js ''; '') (map title (tasks r))) \<and>
           trim (join (js ''; '') (map title (tasks r))) = join (js ''; '') (map title (tasks r)))"
    by blast
  from mockExtract_Inr [of ?t] obtain ts where
    m: "mockExtract ?t =
          Inr \<lparr>tasks = (if ts = [] then [fallback] else ts),
               followUp = tidy (follow_template (if ts = [] then [fallback] else ts))\<rparr>"
    and ti: "map title ts = map (\<lambda>l. title_of (cleaned l)) (filter is_action (lines_of ?t))"
    by blast
  from ti have ts: "map title ts =
     [js ''Action: Integrate payments API by next Wednesday. Assigned to Ravi.'',
      js ''Please prepare the onboarding doc by Friday. Alice will lead.'',
      js ''We will discuss metrics next meeting. John will propose KPIs.'']"
    by (simp only: sample_lines filter.simps sample_actions if_True list.map sample_titles)
  then have "ts \<noteq> []" by auto
  with m r have "tasks r = ts" by auto
  with ts have j: "join (js ''; '') (map title (tasks r)) =
      js ''Action: Integrate payments API by next Wednesday. Assigned to Ravi.; Please prepare the onboarding doc by Friday. Alice will lead.; We will discuss metrics next meeting. John will propose KPIs.''"
    by (simp only: sample_join)
  from s e r j sample_joined show ?thesis by auto
qed

text \<open>
  The counterexample of C7: the title of the line \<open>will  do\<close> has two spaces in a row;
  \<open>tidy\<close> makes them one in the follow-up message, which therefore does not hold the
  title.
\<close>

theorem title_not_in_followUp:
  "mockExtract (js ''will  do'') =
     Inr \<lparr>tasks = [\<lparr>title = js ''will  do'', assignee = None, due = None, priority = None\<rparr>],
          followUp = js ''Thanks everyone for the meeting. Next actions: will do. Please confirm owners and timelines.''\<rparr> \<and>
   \<not> sublist (join (js ''; '') [js ''will  do''])
       (js ''Thanks everyone for the meeting. Next actions: will do. Please confirm owners and timelines.'')"
proof -
  have t: "tidy (follow_template [\<lparr>title = js ''will  do'', assignee = None, due = None, priority = None\<rparr>]) =
      js ''Thanks everyone for the meeting. Next actions: will do. Please confirm owners and timelines.''"
    by (simp add: follow_template_def tidy_eval)
  have "\<not> sublist (js ''will  do'')
       (js ''Thanks everyone for the meeting. Next actions: will do. Please confirm owners and timelines.'')"
  proof
    assume "sublist (js ''will  do'')
       (js ''Thanks everyone for the meeting. Next actions: will do. Please confirm owners and timelines.'')"
    with tidy_no_spaces [of "follow_template [\<lparr>title = js ''will  do'', assignee = None, due = None, priority = None\<rparr>]"]
    have "successively (\<lambda>a b. \<not> (isSpace a \<and> isSpace b)) (js ''will  do'')"
      unfolding t by (rule successively_sublist)
    then show False by (simp add: js_def isSpace_fast)
  qed
  then show ?thesis
    by (simp add: mockExtract_action_line [OF double_space_line] t)
qed

text \<open>
  C8: the heuristic extractor is total: for every string it returns a result and takes no
  branch that throws.
\<close>

theorem mockExtract_total: "\<exists>r. mockExtract t = Inr r"
  using mockExtract_Inr [of t] by blast

text \<open>
  C9, as amended: let the key be set and the response be a success, with the content
  string \<open>c\<close> (the empty string when the response has none).  \<open>callOpenAIExtract\<close> fails
  with ``OpenAI response could not be parsed as JSON'' exactly when \<open>c\<close> gives no result
  and either \<open>c\<close> has no substring from a first \<open>{\<close> to a last \<open>}\<close> or that substring gives
  no result either; a text gives a result when \<open>JSON.parse\<close> accepts it, the value is not
  \<open>null\<close>, and its member \<open>followUp\<close> is absent, \<open>null\<close> or a string.  So the call fails
  when \<open>JSON.parse\<close> rejects the content and the substring, and when the content is
  \<open>null\<close>; but a content that is a JSON number, string, boolean or array is no failure:
  the call returns the result with no tasks and the empty follow-up message.
\<close>

theorem unparsable_content_fails:
  assumes "key \<noteq> []" and "ok resp"
    and "c = (case content resp of None \<Rightarrow> [] | Some s \<Rightarrow> s)"
  shows "((callOpenAIExtract parse key resp = Inl NotParsed) =
            (\<not> gives_result parse c \<and>
             (brace_block c = None \<or> (\<exists>m. brace_block c = Some m \<and> \<not> gives_result parse m)))) \<and>
         (parse c = None \<and>
          (brace_block c = None \<or> (\<exists>m. brace_block c = Some m \<and> parse m = None)) \<longrightarrow>
            callOpenAIExtract parse key resp = Inl NotParsed) \<and>
         (parse c = Some JNull \<and> brace_block c = None \<longrightarrow>
            callOpenAIExtract parse key resp = Inl NotParsed) \<and>
         ((\<exists>n. parse c = Some (JNumber n)) \<or> (\<exists>s. parse c = Some (JString s)) \<or>
          (\<exists>b. parse c = Some (JBool b)) \<or> (\<exists>vs. parse c = Some (JArray vs)) \<longrightarrow>
            callOpenAIExtract parse key resp = Inr \<lparr>tasks = JArray [], followUp = []\<rparr>)"
proof -
  have char: "(callOpenAIExtract parse key resp = Inl NotParsed) =
           (\<not> gives_result parse c \<and>
            (brace_block c = None \<or> (\<exists>m. brace_block c = Some m \<and> \<not> gives_result parse m)))"
  proof (cases "gives_result parse c")
    case True
    then obtain r where "try_parse parse c = Inr r" using try_parse_gives by blast
    with assms True show ?thesis by (simp add: callOpenAIExtract_def)
  next
    case False
    then obtain e where e: "try_parse parse c = Inl e" using try_parse_not_gives by blast
    show ?thesis
    proof (cases "str_match False rx_json c")
      case None
      then have "brace_block c = None" using match_json [of c] by simp
      with assms e None False show ?thesis by (simp add: callOpenAIExtract_def)
    next
      case (Some m)
      then have b: "brace_block c = Some (whole m)" using match_json [of c] by simp
      show ?thesis
      proof (cases "gives_result parse (whole m)")
        case True
        then obtain r where "try_parse parse (whole m) = Inr r" using try_parse_gives by blast
        with assms e Some b True show ?thesis by (simp add: callOpenAIExtract_def)
      next
        case g: False
        then obtain e' where "try_parse parse (whole m) = Inl e'"
          using try_parse_not_gives by blast
        with assms e Some b False g show ?thesis by (simp add: callOpenAIExtract_def)
      qed
    qed
  qed
  have none: "\<not> gives_result parse x" if "parse x = None" for x
    using that by (simp add: gives_result_def)
  have null: "\<not> gives_result parse x" if "parse x = Some JNull" for x
    using that by (simp add: gives_result_def)
  have rejected: "callOpenAIExtract parse key resp = Inl NotParsed"
    if "parse c = None \<and>
        (brace_block c = None \<or> (\<exists>m. brace_block c = Some m \<and> parse m = None))"
    using that none unfolding char by auto
  have is_null: "callOpenAIExtract parse key resp = Inl NotParsed"
    if "parse c = Some JNull \<and> brace_block c = None"
    using that null unfolding char by auto
  have returned: "callOpenAIExtract parse key resp = Inr \<lparr>tasks = JArray [], followUp = []\<rparr>"
    if "(\<exists>n. parse c = Some (JNumber n)) \<or> (\<exists>s. parse c = Some (JString s)) \<or>
        (\<exists>b. parse c = Some (JBool b)) \<or> (\<exists>vs. parse c = Some (JArray vs))"
  proof -
    from that have "try_parse parse c = Inr \<lparr>tasks = JArray [], followUp = tidy []\<rparr>"
      by (auto simp: try_parse_def from_parsed_def get_prop_def nullish_def)
    then show ?thesis using assms by (simp add: callOpenAIExtract_def tidy_Nil)
  qed
  from char rejected is_null returned show ?thesis by blast
qed

text \<open>
  The witness of C9, on four contents.  ``Sorry, {no tasks} found'' is rejected as it is
  and as its substring \<open>{no tasks}\<close>, and the call fails.  \<open>null\<close> is accepted by
  \<open>JSON.parse\<close>, and the call fails.  \<open>{"tasks":[],"followUp":5}\<close> is accepted too, but
  its follow-up message is a number, and the call fails.  \<open>42\<close> is accepted, and the call
  returns the empty result.
\<close>

theorem unparsable_content_fails_witness:
  \<open>js ''sk-test'' \<noteq> [] \<and>
   JSON_parse (js ''Sorry, {no tasks} found'') = None \<and>
   brace_block (js ''Sorry, {no tasks} found'') = Some (js ''{no tasks}'') \<and>
   JSON_parse (js ''{no tasks}'') = None \<and>
   callOpenAIExtract JSON_parse (js ''sk-test'')
     \<lparr>ok = True, status = 200, body = [], content = Some (js ''Sorry, {no tasks} found'')\<rparr> =
     Inl NotParsed \<and>
   JSON_parse (js ''null'') = Some JNull \<and>
   brace_block (js ''null'') = None \<and>
   callOpenAIExtract JSON_parse (js ''sk-test'')
     \<lparr>ok = True, status = 200, body = [], content = Some (js ''null'')\<rparr> = Inl NotParsed \<and>
   JSON_parse (js ''{"tasks":[],"followUp":5}'') =
     Some (JObject [(js ''tasks'', JArray []), (js ''followUp'', JNumber (js ''5''))]) \<and>
   brace_block (js ''{"tasks":[],"followUp":5}'') = Some (js ''{"tasks":[],"followUp":5}'') \<and>
   callOpenAIExtract JSON_parse (js ''sk-test'')
     \<lparr>ok = True, status = 200, body = [], content = Some (js ''{"tasks":[],"followUp":5}'')\<rparr> =
     Inl NotParsed \<and>
   JSON_parse (js ''42'') = Some (JNumber (js ''42'')) \<and>
   callOpenAIExtract JSON_parse (js ''sk-test'')
     \<lparr>ok = True, status = 200, body = [], content = Some (js ''42'')\<rparr> =
     Inr \<lparr>tasks = JArray [], followUp = []\<rparr>\<close>
  using unparsable_content_fails [of "js ''sk-test''"
      "\<lparr>ok = True, status = 200, body = [], content = Some (js ''Sorry, {no tasks} found'')\<rparr>"
      "js ''Sorry, {no tasks} found''" JSON_parse]
    unparsable_content_fails [of "js ''sk-test''"
      "\<lparr>ok = True, status = 200, body = [], content = Some (js ''null'')\<rparr>"
      "js ''null''" JSON_parse]
    unparsable_content_fails [of "js ''sk-test''"
      \<open>\<lparr>ok = True, status = 200, body = [], content = Some (js ''{"tasks":[],"followUp":5}'')\<rparr>\<close>
      \<open>js ''{"tasks":[],"followUp":5}''\<close> JSON_parse]
    unparsable_content_fails [of "js ''sk-test''"
      "\<lparr>ok = True, status = 200, body = [], content = Some (js ''42'')\<rparr>"
      "js ''42''" JSON_parse]
  by (simp add: parse_prose block_prose parse_42 parse_null parse_followUp_number block_more
      gives_examples) (simp add: js_def)

text \<open>
  The counterexample of C9: the content \<open>42\<close> holds no JSON object, neither as it is
  (\<open>JSON.parse\<close> gives the number 42) nor as a substring from a \<open>{\<close> to a \<open>}\<close> (it has
  none); yet the call does not fail: it returns the result with no tasks and the empty
  follow-up message.
\<close>

theorem number_content_returns:
  "callOpenAIExtract JSON_parse (js ''sk-test'')
     \<lparr>ok = True, status = 200, body = [], content = Some (js ''42'')\<rparr> =
     Inr \<lparr>tasks = JArray [], followUp = []\<rparr> \<and>
   JSON_parse (js ''42'') = Some (JNumber (js ''42'')) \<and>
   brace_block (js ''42'') = None"
  by (simp add: number_content parse_42 block_prose)

text \<open>
  C10: the cleanup of the presentation layer changes nothing on text that \<open>tidy\<close> has
  normalised: \<open>cleanFollowUp (tidy s) = tidy s\<close> for every string \<open>s\<close>.  The two cleaners
  compute the same function, and \<open>cleanFollowUp\<close> is idempotent as well.
\<close>

theorem cleanFollowUp_after_tidy:
  "cleanFollowUp (tidy s) = tidy s \<and> cleanFollowUp s = tidy s \<and>
   cleanFollowUp (cleanFollowUp s) = cleanFollowUp s"
  by (simp add: cleanFollowUp_eq_tidy tidy_twice)

end
